theory Spec2Isabelle
  imports Main "HOL-Library.Word"
begin

unbundle bit_operations_syntax

section \<open>Data model\<close>

text \<open>
  The module under verification is the cipher codec: a module constant
  \<open>ENCRYPTION_KEY\<close>, the algorithm name \<open>aes-256-cbc\<close> and the two exported
  functions \<open>encrypt\<close> and \<open>decrypt\<close>. A Buffer is a list of bytes; a JavaScript
  string is a list of UTF-16 code units (unpaired surrogates are legal members of the
  type). Everything the module calls in Node's \<open>crypto\<close> and \<open>Buffer\<close> libraries
  is written out below: UTF-8 conversion, hexadecimal conversion, \<open>split\<close>,
  \<open>randomBytes\<close>, and AES-256 in CBC mode with PKCS#7 padding (FIPS-197, as OpenSSL
  computes it behind \<open>createCipheriv\<close>/\<open>createDecipheriv\<close>).
\<close>

type_synonym byte = "8 word"
type_synonym buffer = "byte list"
type_synonym jsstring = "16 word list"

text \<open>ASCII literals as JavaScript strings.\<close>

definition js :: "string \<Rightarrow> jsstring" where
  "js s = map of_char s"

text \<open>
  Every throw that \<open>encrypt\<close> and \<open>decrypt\<close> can reach:
  \<open>Buffer.from(undefined, 'hex')\<close> raises a TypeError; \<open>createCipheriv\<close> and
  \<open>createDecipheriv\<close> reject an IV that is not 16 bytes, then a key that is not
  32 bytes; \<open>decipher.final()\<close> rejects a ciphertext that is empty or not a whole
  number of blocks (wrong final block length) and a final block whose padding is
  malformed (bad decrypt).
\<close>

datatype error = TypeError | InvalidIV | InvalidKeyLength | WrongFinalBlockLength | BadDecrypt

text \<open>
  The entropy source is an unbounded sequence of bytes; \<open>crypto.randomBytes(n)\<close>
  hands out the next \<open>n\<close> of them and leaves the rest for later calls.
\<close>

type_synonym rng = "nat \<Rightarrow> byte"

definition randomBytes :: "nat \<Rightarrow> rng \<Rightarrow> buffer \<times> rng" where
  "randomBytes n r = (map r [0..<n], \<lambda>i. r (i + n))"

section \<open>UTF-8\<close>

text \<open>
  \<open>cipher.update(text)\<close> with a string and no input encoding, and
  \<open>Buffer.from(ENCRYPTION_KEY)\<close>, convert the string to UTF-8. A surrogate pair
  becomes one four-byte sequence; an unpaired surrogate is replaced by U+FFFD
  (bytes EF BF BD). The arithmetic is on the numeric values of code units and bytes.
\<close>

definition is_high_surrogate :: "nat \<Rightarrow> bool" where
  "is_high_surrogate u = (0xD800 \<le> u \<and> u \<le> 0xDBFF)"

definition is_low_surrogate :: "nat \<Rightarrow> bool" where
  "is_low_surrogate u = (0xDC00 \<le> u \<and> u \<le> 0xDFFF)"

fun utf8_enc :: "nat list \<Rightarrow> nat list" where
  "utf8_enc [] = []"
| "utf8_enc (u # us) =
     (if u < 0x80 then u # utf8_enc us
      else if u < 0x800 then (0xC0 + u div 64) # (0x80 + u mod 64) # utf8_enc us
      else if is_high_surrogate u then
        (case us of
           [] \<Rightarrow> [0xEF, 0xBF, 0xBD]
         | l # rest \<Rightarrow>
             if is_low_surrogate l then
               (let cp = 0x10000 + (u - 0xD800) * 1024 + (l - 0xDC00)
                in (0xF0 + cp div 262144) # (0x80 + cp div 4096 mod 64) #
                   (0x80 + cp div 64 mod 64) # (0x80 + cp mod 64) # utf8_enc rest)
             else 0xEF # 0xBF # 0xBD # utf8_enc us)
      else if is_low_surrogate u then 0xEF # 0xBF # 0xBD # utf8_enc us
      else (0xE0 + u div 4096) # (0x80 + u div 64 mod 64) # (0x80 + u mod 64) # utf8_enc us)"

definition utf8_encode :: "jsstring \<Rightarrow> buffer" where
  "utf8_encode s = map of_nat (utf8_enc (map unat s))"

text \<open>
  \<open>String.prototype.isWellFormed\<close>: no unpaired surrogate.
\<close>

fun isWellFormed :: "nat list \<Rightarrow> bool" where
  "isWellFormed [] = True"
| "isWellFormed (u # us) =
     (if is_high_surrogate u then
        (case us of [] \<Rightarrow> False | l # rest \<Rightarrow> is_low_surrogate l \<and> isWellFormed rest)
      else \<not> is_low_surrogate u \<and> isWellFormed us)"

definition well_formed :: "jsstring \<Rightarrow> bool" where
  "well_formed s = isWellFormed (map unat s)"

text \<open>
  \<open>buffer.toString()\<close> decodes UTF-8 and never throws: each maximal ill-formed
  subsequence becomes one U+FFFD, and decoding resumes at the offending byte. A byte
  order mark is kept. The decoder yields code points; code points above U+FFFF are
  written as a surrogate pair.
\<close>

definition is_cont :: "nat \<Rightarrow> bool" where
  "is_cont b = (0x80 \<le> b \<and> b \<le> 0xBF)"

definition lower3 :: "nat \<Rightarrow> nat" where
  "lower3 b = (if b = 0xE0 then 0xA0 else 0x80)"

definition upper3 :: "nat \<Rightarrow> nat" where
  "upper3 b = (if b = 0xED then 0x9F else 0xBF)"

definition lower4 :: "nat \<Rightarrow> nat" where
  "lower4 b = (if b = 0xF0 then 0x90 else 0x80)"

definition upper4 :: "nat \<Rightarrow> nat" where
  "upper4 b = (if b = 0xF4 then 0x8F else 0xBF)"

fun utf8_dec :: "nat list \<Rightarrow> nat list" where
  "utf8_dec [] = []"
| "utf8_dec (b # bs) =
     (if b < 0x80 then b # utf8_dec bs
      else if 0xC2 \<le> b \<and> b \<le> 0xDF then
        (case bs of
           [] \<Rightarrow> [0xFFFD]
         | c1 # r1 \<Rightarrow>
             if is_cont c1 then ((b - 0xC0) * 64 + (c1 - 0x80)) # utf8_dec r1
             else 0xFFFD # utf8_dec bs)
      else if 0xE0 \<le> b \<and> b \<le> 0xEF then
        (case bs of
           [] \<Rightarrow> [0xFFFD]
         | c1 # r1 \<Rightarrow>
             if lower3 b \<le> c1 \<and> c1 \<le> upper3 b then
               (case r1 of
                  [] \<Rightarrow> [0xFFFD]
                | c2 # r2 \<Rightarrow>
                    if is_cont c2
                    then ((b - 0xE0) * 4096 + (c1 - 0x80) * 64 + (c2 - 0x80)) # utf8_dec r2
                    else 0xFFFD # utf8_dec r1)
             else 0xFFFD # utf8_dec bs)
      else if 0xF0 \<le> b \<and> b \<le> 0xF4 then
        (case bs of
           [] \<Rightarrow> [0xFFFD]
         | c1 # r1 \<Rightarrow>
             if lower4 b \<le> c1 \<and> c1 \<le> upper4 b then
               (case r1 of
                  [] \<Rightarrow> [0xFFFD]
                | c2 # r2 \<Rightarrow>
                    if is_cont c2 then
                      (case r2 of
                         [] \<Rightarrow> [0xFFFD]
                       | c3 # r3 \<Rightarrow>
                           if is_cont c3
                           then ((b - 0xF0) * 262144 + (c1 - 0x80) * 4096 +
                                 (c2 - 0x80) * 64 + (c3 - 0x80)) # utf8_dec r3
                           else 0xFFFD # utf8_dec r2)
                    else 0xFFFD # utf8_dec r1)
             else 0xFFFD # utf8_dec bs)
      else 0xFFFD # utf8_dec bs)"

fun utf16_units :: "nat list \<Rightarrow> nat list" where
  "utf16_units [] = []"
| "utf16_units (cp # cps) =
     (if cp < 0x10000 then cp # utf16_units cps
      else (0xD800 + (cp - 0x10000) div 1024) # (0xDC00 + (cp - 0x10000) mod 1024) #
           utf16_units cps)"

definition utf8_decode :: "buffer \<Rightarrow> jsstring" where
  "utf8_decode bs = map of_nat (utf16_units (utf8_dec (map unat bs)))"

section \<open>Hexadecimal\<close>

text \<open>
  \<open>buf.toString('hex')\<close> writes two lowercase digits per byte.
  \<open>Buffer.from(s, 'hex')\<close> reads digit pairs of either case and stops, without an
  error, at the first pair that is not two hexadecimal digits; a trailing single
  character is dropped. The decoder looks each code unit up by its low 8 bits (the
  unit is cast to a byte), so a unit above U+00FF counts as the digit its low byte
  spells: U+0130 is read as \<open>0\<close>.
\<close>

definition hex_digit :: "nat \<Rightarrow> 16 word" where
  "hex_digit n = (if n < 10 then of_nat (0x30 + n) else of_nat (0x57 + n))"

definition hex_encode :: "buffer \<Rightarrow> jsstring" where
  "hex_encode bs = concat (map (\<lambda>b. [hex_digit (unat b div 16), hex_digit (unat b mod 16)]) bs)"

definition unhex :: "16 word \<Rightarrow> nat option" where
  "unhex c =
     (let n = unat c mod 256
      in if 0x30 \<le> n \<and> n \<le> 0x39 then Some (n - 0x30)
         else if 0x41 \<le> n \<and> n \<le> 0x46 then Some (n - 0x37)
         else if 0x61 \<le> n \<and> n \<le> 0x66 then Some (n - 0x57)
         else None)"

fun hex_decode :: "jsstring \<Rightarrow> buffer" where
  "hex_decode (a # b # rest) =
     (case unhex a of
        None \<Rightarrow> []
      | Some x \<Rightarrow>
          (case unhex b of
             None \<Rightarrow> []
           | Some y \<Rightarrow> of_nat (16 * x + y) # hex_decode rest))"
| "hex_decode s = []"

section \<open>String.prototype.split\<close>

text \<open>
  \<open>text.split(':')\<close> cuts at every occurrence of the separator and always returns
  at least one field.
\<close>

definition colon :: "16 word" where
  "colon = 0x3A"

fun str_split :: "16 word \<Rightarrow> jsstring \<Rightarrow> jsstring list" where
  "str_split sep [] = [[]]"
| "str_split sep (c # cs) =
     (if c = sep then [] # str_split sep cs
      else (case str_split sep cs of [] \<Rightarrow> [[c]] | p # ps \<Rightarrow> (c # p) # ps))"

section \<open>AES-256 (FIPS-197)\<close>

text \<open>The substitution table and its inverse, indexed by the byte value.\<close>

definition sbox_table :: "byte list" where
  "sbox_table = [
   0x63, 0x7c, 0x77, 0x7b, 0xf2, 0x6b, 0x6f, 0xc5, 0x30, 0x01, 0x67, 0x2b, 0xfe, 0xd7, 0xab, 0x76,
   0xca, 0x82, 0xc9, 0x7d, 0xfa, 0x59, 0x47, 0xf0, 0xad, 0xd4, 0xa2, 0xaf, 0x9c, 0xa4, 0x72, 0xc0,
   0xb7, 0xfd, 0x93, 0x26, 0x36, 0x3f, 0xf7, 0xcc, 0x34, 0xa5, 0xe5, 0xf1, 0x71, 0xd8, 0x31, 0x15,
   0x04, 0xc7, 0x23, 0xc3, 0x18, 0x96, 0x05, 0x9a, 0x07, 0x12, 0x80, 0xe2, 0xeb, 0x27, 0xb2, 0x75,
   0x09, 0x83, 0x2c, 0x1a, 0x1b, 0x6e, 0x5a, 0xa0, 0x52, 0x3b, 0xd6, 0xb3, 0x29, 0xe3, 0x2f, 0x84,
   0x53, 0xd1, 0x00, 0xed, 0x20, 0xfc, 0xb1, 0x5b, 0x6a, 0xcb, 0xbe, 0x39, 0x4a, 0x4c, 0x58, 0xcf,
   0xd0, 0xef, 0xaa, 0xfb, 0x43, 0x4d, 0x33, 0x85, 0x45, 0xf9, 0x02, 0x7f, 0x50, 0x3c, 0x9f, 0xa8,
   0x51, 0xa3, 0x40, 0x8f, 0x92, 0x9d, 0x38, 0xf5, 0xbc, 0xb6, 0xda, 0x21, 0x10, 0xff, 0xf3, 0xd2,
   0xcd, 0x0c, 0x13, 0xec, 0x5f, 0x97, 0x44, 0x17, 0xc4, 0xa7, 0x7e, 0x3d, 0x64, 0x5d, 0x19, 0x73,
   0x60, 0x81, 0x4f, 0xdc, 0x22, 0x2a, 0x90, 0x88, 0x46, 0xee, 0xb8, 0x14, 0xde, 0x5e, 0x0b, 0xdb,
   0xe0, 0x32, 0x3a, 0x0a, 0x49, 0x06, 0x24, 0x5c, 0xc2, 0xd3, 0xac, 0x62, 0x91, 0x95, 0xe4, 0x79,
   0xe7, 0xc8, 0x37, 0x6d, 0x8d, 0xd5, 0x4e, 0xa9, 0x6c, 0x56, 0xf4, 0xea, 0x65, 0x7a, 0xae, 0x08,
   0xba, 0x78, 0x25, 0x2e, 0x1c, 0xa6, 0xb4, 0xc6, 0xe8, 0xdd, 0x74, 0x1f, 0x4b, 0xbd, 0x8b, 0x8a,
   0x70, 0x3e, 0xb5, 0x66, 0x48, 0x03, 0xf6, 0x0e, 0x61, 0x35, 0x57, 0xb9, 0x86, 0xc1, 0x1d, 0x9e,
   0xe1, 0xf8, 0x98, 0x11, 0x69, 0xd9, 0x8e, 0x94, 0x9b, 0x1e, 0x87, 0xe9, 0xce, 0x55, 0x28, 0xdf,
   0x8c, 0xa1, 0x89, 0x0d, 0xbf, 0xe6, 0x42, 0x68, 0x41, 0x99, 0x2d, 0x0f, 0xb0, 0x54, 0xbb, 0x16]"

definition inv_sbox_table :: "byte list" where
  "inv_sbox_table = [
   0x52, 0x09, 0x6a, 0xd5, 0x30, 0x36, 0xa5, 0x38, 0xbf, 0x40, 0xa3, 0x9e, 0x81, 0xf3, 0xd7, 0xfb,
   0x7c, 0xe3, 0x39, 0x82, 0x9b, 0x2f, 0xff, 0x87, 0x34, 0x8e, 0x43, 0x44, 0xc4, 0xde, 0xe9, 0xcb,
   0x54, 0x7b, 0x94, 0x32, 0xa6, 0xc2, 0x23, 0x3d, 0xee, 0x4c, 0x95, 0x0b, 0x42, 0xfa, 0xc3, 0x4e,
   0x08, 0x2e, 0xa1, 0x66, 0x28, 0xd9, 0x24, 0xb2, 0x76, 0x5b, 0xa2, 0x49, 0x6d, 0x8b, 0xd1, 0x25,
   0x72, 0xf8, 0xf6, 0x64, 0x86, 0x68, 0x98, 0x16, 0xd4, 0xa4, 0x5c, 0xcc, 0x5d, 0x65, 0xb6, 0x92,
   0x6c, 0x70, 0x48, 0x50, 0xfd, 0xed, 0xb9, 0xda, 0x5e, 0x15, 0x46, 0x57, 0xa7, 0x8d, 0x9d, 0x84,
   0x90, 0xd8, 0xab, 0x00, 0x8c, 0xbc, 0xd3, 0x0a, 0xf7, 0xe4, 0x58, 0x05, 0xb8, 0xb3, 0x45, 0x06,
   0xd0, 0x2c, 0x1e, 0x8f, 0xca, 0x3f, 0x0f, 0x02, 0xc1, 0xaf, 0xbd, 0x03, 0x01, 0x13, 0x8a, 0x6b,
   0x3a, 0x91, 0x11, 0x41, 0x4f, 0x67, 0xdc, 0xea, 0x97, 0xf2, 0xcf, 0xce, 0xf0, 0xb4, 0xe6, 0x73,
   0x96, 0xac, 0x74, 0x22, 0xe7, 0xad, 0x35, 0x85, 0xe2, 0xf9, 0x37, 0xe8, 0x1c, 0x75, 0xdf, 0x6e,
   0x47, 0xf1, 0x1a, 0x71, 0x1d, 0x29, 0xc5, 0x89, 0x6f, 0xb7, 0x62, 0x0e, 0xaa, 0x18, 0xbe, 0x1b,
   0xfc, 0x56, 0x3e, 0x4b, 0xc6, 0xd2, 0x79, 0x20, 0x9a, 0xdb, 0xc0, 0xfe, 0x78, 0xcd, 0x5a, 0xf4,
   0x1f, 0xdd, 0xa8, 0x33, 0x88, 0x07, 0xc7, 0x31, 0xb1, 0x12, 0x10, 0x59, 0x27, 0x80, 0xec, 0x5f,
   0x60, 0x51, 0x7f, 0xa9, 0x19, 0xb5, 0x4a, 0x0d, 0x2d, 0xe5, 0x7a, 0x9f, 0x93, 0xc9, 0x9c, 0xef,
   0xa0, 0xe0, 0x3b, 0x4d, 0xae, 0x2a, 0xf5, 0xb0, 0xc8, 0xeb, 0xbb, 0x3c, 0x83, 0x53, 0x99, 0x61,
   0x17, 0x2b, 0x04, 0x7e, 0xba, 0x77, 0xd6, 0x26, 0xe1, 0x69, 0x14, 0x63, 0x55, 0x21, 0x0c, 0x7d]"

definition sub_byte :: "byte \<Rightarrow> byte" where
  "sub_byte b = sbox_table ! unat b"

definition inv_sub_byte :: "byte \<Rightarrow> byte" where
  "inv_sub_byte b = inv_sbox_table ! unat b"

definition xor_bytes :: "buffer \<Rightarrow> buffer \<Rightarrow> buffer" where
  "xor_bytes a b = map2 (XOR) a b"

text \<open>Multiplication by 2 in GF(256), reduced by the AES polynomial 0x11b, and by the constants of MixColumns.\<close>

definition xtime :: "byte \<Rightarrow> byte" where
  "xtime b = (if bit b 7 then push_bit 1 b XOR 0x1b else push_bit 1 b)"

definition mul3 :: "byte \<Rightarrow> byte" where
  "mul3 b = xtime b XOR b"

definition mul9 :: "byte \<Rightarrow> byte" where
  "mul9 b = xtime (xtime (xtime b)) XOR b"

definition mul11 :: "byte \<Rightarrow> byte" where
  "mul11 b = xtime (xtime (xtime b)) XOR xtime b XOR b"

definition mul13 :: "byte \<Rightarrow> byte" where
  "mul13 b = xtime (xtime (xtime b)) XOR xtime (xtime b) XOR b"

definition mul14 :: "byte \<Rightarrow> byte" where
  "mul14 b = xtime (xtime (xtime b)) XOR xtime (xtime b) XOR xtime b"

text \<open>The state is the 16-byte block in input order (column by column).\<close>

definition sub_bytes :: "buffer \<Rightarrow> buffer" where
  "sub_bytes s = map sub_byte s"

definition inv_sub_bytes :: "buffer \<Rightarrow> buffer" where
  "inv_sub_bytes s = map inv_sub_byte s"

fun shift_rows :: "buffer \<Rightarrow> buffer" where
  "shift_rows [s0, s1, s2, s3, s4, s5, s6, s7, s8, s9, s10, s11, s12, s13, s14, s15] =
     [s0, s5, s10, s15, s4, s9, s14, s3, s8, s13, s2, s7, s12, s1, s6, s11]"
| "shift_rows s = s"

fun inv_shift_rows :: "buffer \<Rightarrow> buffer" where
  "inv_shift_rows [s0, s1, s2, s3, s4, s5, s6, s7, s8, s9, s10, s11, s12, s13, s14, s15] =
     [s0, s13, s10, s7, s4, s1, s14, s11, s8, s5, s2, s15, s12, s9, s6, s3]"
| "inv_shift_rows s = s"

fun mix_columns :: "buffer \<Rightarrow> buffer" where
  "mix_columns (a # b # c # d # rest) =
     (xtime a XOR mul3 b XOR c XOR d) #
     (a XOR xtime b XOR mul3 c XOR d) #
     (a XOR b XOR xtime c XOR mul3 d) #
     (mul3 a XOR b XOR c XOR xtime d) # mix_columns rest"
| "mix_columns s = s"

fun inv_mix_columns :: "buffer \<Rightarrow> buffer" where
  "inv_mix_columns (a # b # c # d # rest) =
     (mul14 a XOR mul11 b XOR mul13 c XOR mul9 d) #
     (mul9 a XOR mul14 b XOR mul11 c XOR mul13 d) #
     (mul13 a XOR mul9 b XOR mul14 c XOR mul11 d) #
     (mul11 a XOR mul13 b XOR mul9 c XOR mul14 d) # inv_mix_columns rest"
| "inv_mix_columns s = s"

definition add_round_key :: "buffer \<Rightarrow> buffer \<Rightarrow> buffer" where
  "add_round_key k s = xor_bytes s k"

text \<open>
  Key expansion for a 32-byte key (Nk = 8, Nr = 14): 60 four-byte words, grouped
  into 15 round keys.
\<close>

fun words_of :: "buffer \<Rightarrow> buffer list" where
  "words_of (a # b # c # d # rest) = [a, b, c, d] # words_of rest"
| "words_of s = []"

definition rot_word :: "buffer \<Rightarrow> buffer" where
  "rot_word w = rotate1 w"

definition rcon :: "nat \<Rightarrow> buffer" where
  "rcon j = [[0x01, 0x02, 0x04, 0x08, 0x10, 0x20, 0x40] ! (j - 1), 0, 0, 0]"

definition next_word :: "nat \<Rightarrow> buffer list \<Rightarrow> buffer" where
  "next_word i w =
     (let temp = w ! (i - 1);
          temp' = (if i mod 8 = 0 then xor_bytes (map sub_byte (rot_word temp)) (rcon (i div 8))
                   else if i mod 8 = 4 then map sub_byte temp
                   else temp)
      in xor_bytes (w ! (i - 8)) temp')"

definition key_expansion :: "buffer \<Rightarrow> buffer list" where
  "key_expansion key = fold (\<lambda>i w. w @ [next_word i w]) [8..<60] (words_of key)"

fun round_keys :: "buffer list \<Rightarrow> buffer list" where
  "round_keys (a # b # c # d # rest) = (a @ b @ c @ d) # round_keys rest"
| "round_keys w = []"

text \<open>
  The cipher and the inverse cipher on one block, given the round keys
  (first to last): an initial key addition, \<open>Nr - 1\<close> full rounds and a final round
  without MixColumns; the inverse cipher undoes the final round, then the full rounds
  from the last to the first, then the initial key addition.
\<close>

definition enc_round :: "buffer \<Rightarrow> buffer \<Rightarrow> buffer" where
  "enc_round k s = add_round_key k (mix_columns (shift_rows (sub_bytes s)))"

definition final_round :: "buffer \<Rightarrow> buffer \<Rightarrow> buffer" where
  "final_round k s = add_round_key k (shift_rows (sub_bytes s))"

definition inv_round :: "buffer \<Rightarrow> buffer \<Rightarrow> buffer" where
  "inv_round k s = inv_sub_bytes (inv_shift_rows (inv_mix_columns (add_round_key k s)))"

definition inv_final_round :: "buffer \<Rightarrow> buffer \<Rightarrow> buffer" where
  "inv_final_round k s = inv_sub_bytes (inv_shift_rows (add_round_key k s))"

fun rounds :: "buffer list \<Rightarrow> buffer \<Rightarrow> buffer" where
  "rounds [] s = s"
| "rounds [k] s = final_round k s"
| "rounds (k # ks) s = rounds ks (enc_round k s)"

fun inv_rounds :: "buffer list \<Rightarrow> buffer \<Rightarrow> buffer" where
  "inv_rounds [] s = s"
| "inv_rounds [k] s = inv_final_round k s"
| "inv_rounds (k # ks) s = inv_round k (inv_rounds ks s)"

definition cipher :: "buffer list \<Rightarrow> buffer \<Rightarrow> buffer" where
  "cipher rk inp = (case rk of [] \<Rightarrow> inp | k0 # ks \<Rightarrow> rounds ks (add_round_key k0 inp))"

definition inv_cipher :: "buffer list \<Rightarrow> buffer \<Rightarrow> buffer" where
  "inv_cipher rk inp = (case rk of [] \<Rightarrow> inp | k0 # ks \<Rightarrow> add_round_key k0 (inv_rounds ks inp))"

section \<open>CBC mode with PKCS#7 padding\<close>

text \<open>
  \<open>cipher.update(data)\<close> followed by \<open>cipher.final()\<close>: the data is padded with
  \<open>n\<close> bytes of value \<open>n\<close>, \<open>1 \<le> n \<le> 16\<close>, to a whole number of blocks; each block
  is XORed with the previous ciphertext block (the IV for the first) and enciphered.
\<close>

fun blocks :: "buffer \<Rightarrow> buffer list" where
  "blocks bs = (if bs = [] then [] else take 16 bs # blocks (drop 16 bs))"

declare blocks.simps [simp del]

definition pkcs7_pad :: "buffer \<Rightarrow> buffer" where
  "pkcs7_pad data = (let n = 16 - length data mod 16 in data @ replicate n (of_nat n))"

fun cbc_enc :: "buffer list \<Rightarrow> buffer \<Rightarrow> buffer list \<Rightarrow> buffer list" where
  "cbc_enc rk prev [] = []"
| "cbc_enc rk prev (p # ps) =
     (let c = cipher rk (xor_bytes p prev) in c # cbc_enc rk c ps)"

fun cbc_dec :: "buffer list \<Rightarrow> buffer \<Rightarrow> buffer list \<Rightarrow> buffer list" where
  "cbc_dec rk prev [] = []"
| "cbc_dec rk prev (c # cs) = xor_bytes (inv_cipher rk c) prev # cbc_dec rk c cs"

definition cipher_update_final :: "buffer list \<Rightarrow> buffer \<Rightarrow> buffer \<Rightarrow> buffer" where
  "cipher_update_final rk iv data = concat (cbc_enc rk iv (blocks (pkcs7_pad data)))"

text \<open>
  \<open>decipher.update(data)\<close> followed by \<open>decipher.final()\<close>: the data must be a
  positive whole number of blocks; after deciphering, the last byte \<open>n\<close> of the final
  block must satisfy \<open>1 \<le> n \<le> 16\<close> and the last \<open>n\<close> bytes must all equal \<open>n\<close>;
  they are removed.
\<close>

definition pkcs7_unpad :: "buffer \<Rightarrow> error + buffer" where
  "pkcs7_unpad out =
     (let n = unat (last out)
      in if n = 0 \<or> 16 < n then Inl BadDecrypt
         else if list_all (\<lambda>b. b = last out) (drop (length out - n) out)
         then Inr (take (length out - n) out)
         else Inl BadDecrypt)"

definition decipher_update_final :: "buffer list \<Rightarrow> buffer \<Rightarrow> buffer \<Rightarrow> error + buffer" where
  "decipher_update_final rk iv data =
     (if data = [] \<or> length data mod 16 \<noteq> 0 then Inl WrongFinalBlockLength
      else pkcs7_unpad (concat (cbc_dec rk iv (blocks data))))"

text \<open>
  \<open>createCipheriv('aes-256-cbc', key, iv)\<close> and \<open>createDecipheriv\<close> check the IV
  length, then the key length, and expand the key.
\<close>

definition createCipheriv :: "buffer \<Rightarrow> buffer \<Rightarrow> error + buffer list" where
  "createCipheriv key iv =
     (if length iv \<noteq> 16 then Inl InvalidIV
      else if length key \<noteq> 32 then Inl InvalidKeyLength
      else Inr (round_keys (key_expansion key)))"

definition createDecipheriv :: "buffer \<Rightarrow> buffer \<Rightarrow> error + buffer list" where
  "createDecipheriv key iv = createCipheriv key iv"

section \<open>The module\<close>

text \<open>
  \<open>const ENCRYPTION_KEY = process.env.ENCRYPTION_KEY || 'your-secret-key-32-chars-long!'\<close>:
  the environment value is absent (\<open>None\<close>) or a string; \<open>||\<close> takes the right-hand
  side when the left is \<open>undefined\<close> or the empty string.
\<close>

definition fallback_key :: jsstring where
  "fallback_key = js ''your-secret-key-32-chars-long!''"

definition ENCRYPTION_KEY :: "jsstring option \<Rightarrow> jsstring" where
  "ENCRYPTION_KEY env =
     (case env of None \<Rightarrow> fallback_key | Some v \<Rightarrow> if v = [] then fallback_key else v)"

text \<open>\<open>Buffer.from(ENCRYPTION_KEY)\<close>: the UTF-8 bytes of the key string.\<close>

definition key_buffer :: "jsstring option \<Rightarrow> buffer" where
  "key_buffer env = utf8_encode (ENCRYPTION_KEY env)"

text \<open>
  \<open>encrypt\<close> draws the IV before it builds the cipher, so the entropy is consumed
  also when the key is rejected.
\<close>

definition encrypt :: "jsstring option \<Rightarrow> rng \<Rightarrow> jsstring \<Rightarrow> (error + jsstring) \<times> rng" where
  "encrypt env r text =
     (let (iv, r') = randomBytes 16 r
      in (case createCipheriv (key_buffer env) iv of
            Inl e \<Rightarrow> Inl e
          | Inr rk \<Rightarrow>
              (let encrypted = cipher_update_final rk iv (utf8_encode text)
               in Inr (hex_encode iv @ js '':'' @ hex_encode encrypted)),
          r'))"

text \<open>
  \<open>decrypt\<close> reads \<open>textParts[0]\<close> and \<open>textParts[1]\<close> and nothing else of the
  split; \<open>textParts[1]\<close> is \<open>undefined\<close> when the text has no delimiter, and
  \<open>Buffer.from(undefined, 'hex')\<close> throws.
\<close>

definition decrypt :: "jsstring option \<Rightarrow> jsstring \<Rightarrow> error + jsstring" where
  "decrypt env text =
     (case str_split colon text of
        [] \<Rightarrow> Inl TypeError
      | p0 # ps \<Rightarrow>
          (let iv = hex_decode p0
           in case ps of
                [] \<Rightarrow> Inl TypeError
              | p1 # _ \<Rightarrow>
                  (let encryptedText = hex_decode p1
                   in case createDecipheriv (key_buffer env) iv of
                        Inl e \<Rightarrow> Inl e
                      | Inr rk \<Rightarrow>
                          (case decipher_update_final rk iv encryptedText of
                             Inl e \<Rightarrow> Inl e
                           | Inr decrypted \<Rightarrow> Inr (utf8_decode decrypted)))))"

section \<open>Notions used by the properties\<close>

text \<open>
  The key is valid for \<open>aes-256-cbc\<close> when its UTF-8 encoding has 32 bytes.
\<close>

definition valid_key :: "jsstring option \<Rightarrow> bool" where
  "valid_key env \<longleftrightarrow> length (key_buffer env) = 32"

text \<open>The IV that a call of \<open>encrypt\<close> draws from the entropy source \<open>r\<close>.\<close>

definition drawn_iv :: "rng \<Rightarrow> buffer" where
  "drawn_iv r = fst (randomBytes 16 r)"

text \<open>The round keys that \<open>encrypt\<close> and \<open>decrypt\<close> work with under a valid key.\<close>

definition module_round_keys :: "jsstring option \<Rightarrow> buffer list" where
  "module_round_keys env = round_keys (key_expansion (key_buffer env))"



text \<open>Uppercasing the ASCII letters of a string, as \<open>toUpperCase\<close> does on them.\<close>

definition upper_unit :: "16 word \<Rightarrow> 16 word" where
  "upper_unit c = (if 0x61 \<le> unat c \<and> unat c \<le> 0x7A then c - 0x20 else c)"

definition toUpperCase :: "jsstring \<Rightarrow> jsstring" where
  "toUpperCase s = map upper_unit s"

text \<open>
  Flipping bit \<open>j\<close> of byte \<open>i\<close> of a buffer, and the same on the ciphertext field of
  an encoded value: the field is decoded, one bit is flipped, and the field is
  encoded again.
\<close>

definition flip_buffer_bit :: "nat \<Rightarrow> nat \<Rightarrow> buffer \<Rightarrow> buffer" where
  "flip_buffer_bit i j bs = (if i < length bs then bs[i := (bs ! i) XOR push_bit j 1] else bs)"

definition flip_ciphertext_bit :: "nat \<Rightarrow> nat \<Rightarrow> jsstring \<Rightarrow> jsstring" where
  "flip_ciphertext_bit i j enc =
     (case str_split colon enc of
        ivh # cth # rest \<Rightarrow> ivh @ [colon] @ hex_encode (flip_buffer_bit i j (hex_decode cth))
      | _ \<Rightarrow> enc)"

text \<open>
  What \<open>decrypt\<close> does once it holds the two fields it reads.
\<close>

definition decrypt_fields :: "jsstring option \<Rightarrow> jsstring \<Rightarrow> jsstring \<Rightarrow> error + jsstring" where
  "decrypt_fields env p0 p1 =
     (case createDecipheriv (key_buffer env) (hex_decode p0) of
        Inl e \<Rightarrow> Inl e
      | Inr rk \<Rightarrow>
          (case decipher_update_final rk (hex_decode p0) (hex_decode p1) of
             Inl e \<Rightarrow> Inl e
           | Inr decrypted \<Rightarrow> Inr (utf8_decode decrypted)))"

section \<open>The inverse cipher inverts the cipher\<close>

lemma xtime_xor: "xtime (a XOR b) = xtime a XOR xtime b"
  by (simp add: xtime_def bit_xor_iff xor.assoc xor.commute xor.left_commute)

lemma inv_mix_columns_mix_columns: "inv_mix_columns (mix_columns s) = s"
proof (induction s rule: mix_columns.induct)
  case (1 a b c d rest)
  then show ?case
    by (simp add: mul3_def mul9_def mul11_def mul13_def mul14_def xtime_xor
        xor.assoc xor.commute xor.left_commute)
qed simp_all

lemma inv_shift_rows_shift_rows: "inv_shift_rows (shift_rows s) = s"
  by (cases s rule: shift_rows.cases) simp_all

lemma inv_sbox_of_sbox: "map inv_sub_byte sbox_table = map of_nat [0..<256]"
  by (simp add: inv_sub_byte_def sbox_table_def inv_sbox_table_def upt_rec)

lemma length_sbox_table: "length sbox_table = 256"
  by (simp add: sbox_table_def)

lemma unat_byte_less: "unat (b :: byte) < 256"
  using unsigned_less [of b, where ?'a = nat] by simp

lemma inv_sub_byte_sub_byte: "inv_sub_byte (sub_byte b) = b"
proof -
  have n: "unat b < 256" by (rule unat_byte_less)
  have "inv_sub_byte (sub_byte b) = (map inv_sub_byte sbox_table) ! unat b"
    using n by (simp only: sub_byte_def nth_map length_sbox_table)
  also have "\<dots> = of_nat (unat b)"
    using n by (simp only: inv_sbox_of_sbox) simp
  finally show ?thesis by simp
qed

lemma inv_sub_bytes_sub_bytes: "inv_sub_bytes (sub_bytes s) = s"
  by (simp add: inv_sub_bytes_def sub_bytes_def inv_sub_byte_sub_byte map_idI)

lemma xor_bytes_cancel: "length s \<le> length k \<Longrightarrow> xor_bytes (xor_bytes s k) k = s"
proof (induction s arbitrary: k)
  case Nil
  then show ?case by (simp add: xor_bytes_def)
next
  case (Cons x xs)
  then obtain y ys where k: "k = y # ys" by (cases k) auto
  with Cons show ?case by (simp add: xor_bytes_def xor.assoc)
qed

lemma length_xor_bytes: "length (xor_bytes a b) = min (length a) (length b)"
  by (simp add: xor_bytes_def)

lemma length_shift_rows: "length (shift_rows s) = length s"
  by (cases s rule: shift_rows.cases) simp_all

lemma length_mix_columns: "length (mix_columns s) = length s"
  by (induction s rule: mix_columns.induct) simp_all

lemma length_sub_bytes: "length (sub_bytes s) = length s"
  by (simp add: sub_bytes_def)

lemma length_enc_round: "length s \<le> length k \<Longrightarrow> length (enc_round k s) = length s"
  by (simp add: enc_round_def add_round_key_def length_xor_bytes length_mix_columns
      length_shift_rows length_sub_bytes)

lemma inv_round_enc_round: "length s \<le> length k \<Longrightarrow> inv_round k (enc_round k s) = s"
  by (simp add: inv_round_def enc_round_def add_round_key_def xor_bytes_cancel
      length_mix_columns length_shift_rows length_sub_bytes
      inv_mix_columns_mix_columns inv_shift_rows_shift_rows inv_sub_bytes_sub_bytes)

lemma inv_final_round_final_round:
  "length s \<le> length k \<Longrightarrow> inv_final_round k (final_round k s) = s"
  by (simp add: inv_final_round_def final_round_def add_round_key_def xor_bytes_cancel
      length_shift_rows length_sub_bytes
      inv_shift_rows_shift_rows inv_sub_bytes_sub_bytes)

lemma inv_rounds_rounds:
  "\<forall>k\<in>set ks. length s \<le> length k \<Longrightarrow> inv_rounds ks (rounds ks s) = s"
proof (induction ks s rule: rounds.induct)
  case (1 s)
  then show ?case by simp
next
  case (2 k s)
  then show ?case by (simp add: inv_final_round_final_round)
next
  case (3 k k' ks s)
  then have "inv_rounds (k' # ks) (rounds (k' # ks) (enc_round k s)) = enc_round k s"
    by (simp add: length_enc_round)
  with 3 show ?case by (simp add: inv_round_enc_round)
qed

lemma inv_cipher_cipher:
  assumes "\<forall>k\<in>set rk. length s \<le> length k"
  shows "inv_cipher rk (cipher rk s) = s"
proof (cases rk)
  case Nil
  then show ?thesis by (simp add: cipher_def inv_cipher_def)
next
  case (Cons k0 ks)
  with assms have "inv_rounds ks (rounds ks (add_round_key k0 s)) = add_round_key k0 s"
    by (intro inv_rounds_rounds) (simp add: add_round_key_def length_xor_bytes)
  with Cons assms show ?thesis
    by (simp add: cipher_def inv_cipher_def add_round_key_def xor_bytes_cancel)
qed

lemma length_final_round: "length s \<le> length k \<Longrightarrow> length (final_round k s) = length s"
  by (simp add: final_round_def add_round_key_def length_xor_bytes length_shift_rows
      length_sub_bytes)

lemma length_rounds:
  "\<forall>k\<in>set ks. length s \<le> length k \<Longrightarrow> length (rounds ks s) = length s"
  by (induction ks s rule: rounds.induct) (simp_all add: length_final_round length_enc_round)

lemma length_cipher:
  "\<forall>k\<in>set rk. length s \<le> length k \<Longrightarrow> length (cipher rk s) = length s"
  by (cases rk) (simp_all add: cipher_def length_rounds add_round_key_def length_xor_bytes)

section \<open>The key schedule yields 16-byte round keys\<close>

lemma words_of_length4: "\<forall>x\<in>set (words_of bs). length x = 4"
  by (induction bs rule: words_of.induct) simp_all

lemma length_words_of: "length (words_of bs) = length bs div 4"
  by (induction bs rule: words_of.induct) simp_all

lemma length_next_word:
  assumes "\<forall>x\<in>set w. length x = 4" "8 \<le> i" "i \<le> length w"
  shows "length (next_word i w) = 4"
proof -
  from assms have a: "length (w ! (i - 1)) = 4" "length (w ! (i - 8)) = 4"
    by (simp_all add: nth_mem)
  then show ?thesis
    by (simp add: next_word_def Let_def length_xor_bytes rot_word_def rcon_def)
qed

lemma key_expansion_step_length4:
  "\<forall>x\<in>set w. length x = 4 \<Longrightarrow> 8 \<le> length w \<Longrightarrow>
   \<forall>x\<in>set (fold (\<lambda>i w. w @ [next_word i w]) [length w..<length w + n] w). length x = 4"
proof (induction n arbitrary: w)
  case 0
  then show ?case by simp
next
  case (Suc n)
  let ?w' = "w @ [next_word (length w) w]"
  have "\<forall>x\<in>set ?w'. length x = 4"
    using Suc.prems by (simp add: length_next_word)
  moreover have "8 \<le> length ?w'" using Suc.prems by simp
  ultimately have "\<forall>x\<in>set (fold (\<lambda>i w. w @ [next_word i w]) [length ?w'..<length ?w' + n] ?w'). length x = 4"
    by (rule Suc.IH)
  then show ?case by (simp add: upt_rec [of "length w"])
qed

lemma key_expansion_length4:
  assumes "length key = 32"
  shows "\<forall>x\<in>set (key_expansion key). length x = 4"
proof -
  have l: "length (words_of key) = 8" using assms by (simp add: length_words_of)
  have "\<forall>x\<in>set (fold (\<lambda>i w. w @ [next_word i w])
            [length (words_of key)..<length (words_of key) + 52] (words_of key)). length x = 4"
  proof (rule key_expansion_step_length4)
    show "\<forall>x\<in>set (words_of key). length x = 4" by (rule words_of_length4)
    show "8 \<le> length (words_of key)" by (simp only: l)
  qed
  moreover have "(8::nat) + 52 = 60" by simp
  ultimately show ?thesis by (simp only: key_expansion_def l)
qed

lemma round_keys_length16:
  "\<forall>x\<in>set w. length x = 4 \<Longrightarrow> \<forall>k\<in>set (round_keys w). length k = 16"
  by (induction w rule: round_keys.induct) simp_all

lemma round_keys_key_expansion:
  "length key = 32 \<Longrightarrow> \<forall>k\<in>set (round_keys (key_expansion key)). length k = 16"
  by (rule round_keys_length16) (rule key_expansion_length4)

section \<open>CBC and padding round trip\<close>

lemma concat_blocks: "concat (blocks bs) = bs"
  by (induction bs rule: blocks.induct) (subst blocks.simps, simp)

lemma mod16_step: "(n::nat) mod 16 = 0 \<Longrightarrow> 0 < n \<Longrightarrow> 16 \<le> n \<and> (n - 16) mod 16 = 0"
  by presburger

lemma blocks_nonempty: "bs \<noteq> [] \<Longrightarrow> blocks bs = take 16 bs # blocks (drop 16 bs)"
  by (subst blocks.simps) simp

lemma blocks_length16:
  "length bs mod 16 = 0 \<Longrightarrow> \<forall>b\<in>set (blocks bs). length b = 16"
proof (induction bs rule: blocks.induct)
  case (1 bs)
  show ?case
  proof (cases "bs = []")
    case True
    then show ?thesis by (subst blocks.simps) simp
  next
    case False
    then have "0 < length bs" by simp
    with 1(2) have "16 \<le> length bs \<and> (length bs - 16) mod 16 = 0"
      by (rule mod16_step)
    then have ge: "16 \<le> length bs" and "(length bs - 16) mod 16 = 0" by simp_all
    then have "length (drop 16 bs) mod 16 = 0" by simp
    with 1(1) False have "\<forall>b\<in>set (blocks (drop 16 bs)). length b = 16" by blast
    moreover have "length (take 16 bs) = 16" using ge by simp
    ultimately show ?thesis by (simp add: blocks_nonempty [OF False])
  qed
qed

lemma blocks_concat: "\<forall>b\<in>set bl. length b = 16 \<Longrightarrow> blocks (concat bl) = bl"
proof (induction bl)
  case Nil
  then show ?case by (subst blocks.simps) simp
next
  case (Cons b bl)
  then have "length b = 16" "blocks (concat bl) = bl" by simp_all
  then show ?case by (subst blocks.simps) auto
qed

lemma blocks_eq_Nil: "blocks bs = [] \<longleftrightarrow> bs = []"
  by (subst blocks.simps) simp

lemma cbc_enc_length16:
  assumes "\<forall>k\<in>set rk. length k = 16"
  shows "length prev = 16 \<Longrightarrow> \<forall>p\<in>set ps. length p = 16 \<Longrightarrow>
         \<forall>c\<in>set (cbc_enc rk prev ps). length c = 16"
proof (induction ps arbitrary: prev)
  case Nil
  then show ?case by simp
next
  case (Cons p ps)
  have "length (cipher rk (xor_bytes p prev)) = 16"
    using assms Cons.prems by (simp add: length_cipher length_xor_bytes)
  with Cons show ?case by (simp add: Let_def)
qed

lemma length_cbc_enc: "length (cbc_enc rk prev ps) = length ps"
  by (induction ps arbitrary: prev) (simp_all add: Let_def)

lemma cbc_dec_cbc_enc:
  assumes "\<forall>k\<in>set rk. length k = 16"
  shows "length prev = 16 \<Longrightarrow> \<forall>p\<in>set ps. length p = 16 \<Longrightarrow>
         cbc_dec rk prev (cbc_enc rk prev ps) = ps"
proof (induction ps arbitrary: prev)
  case Nil
  then show ?case by simp
next
  case (Cons p ps)
  let ?c = "cipher rk (xor_bytes p prev)"
  have lc: "length ?c = 16"
    using assms Cons.prems by (simp add: length_cipher length_xor_bytes)
  have "inv_cipher rk ?c = xor_bytes p prev"
    using assms Cons.prems by (simp add: inv_cipher_cipher length_xor_bytes)
  moreover have "xor_bytes (xor_bytes p prev) prev = p"
    using Cons.prems by (simp add: xor_bytes_cancel)
  moreover have "cbc_dec rk ?c (cbc_enc rk ?c ps) = ps"
    using Cons.prems lc by (intro Cons.IH) simp_all
  ultimately show ?case by (simp add: Let_def)
qed

lemma length_concat16:
  "\<forall>c\<in>set cs. length c = 16 \<Longrightarrow> length (concat cs) = 16 * length cs"
  by (induction cs) simp_all

lemma pad_amount: "0 < 16 - n mod 16" "16 - n mod 16 \<le> (16::nat)"
  by simp_all

lemma length_pkcs7_pad: "length (pkcs7_pad d) mod 16 = 0"
proof -
  have "(length d + (16 - length d mod 16)) mod 16 = 0"
    by presburger
  then show ?thesis by (simp add: pkcs7_pad_def Let_def)
qed

lemma pkcs7_pad_nonempty: "pkcs7_pad d \<noteq> []"
  by (simp add: pkcs7_pad_def Let_def)

lemma unat_of_nat_byte: "n < 256 \<Longrightarrow> unat (of_nat n :: byte) = n"
  by (simp add: unat_of_nat)

lemma pkcs7_unpad_replicate:
  assumes "0 < n" "n \<le> 16" "unat v = n"
  shows "pkcs7_unpad (d @ replicate n v) = Inr d"
proof -
  have "last (d @ replicate n v) = v" using assms(1) by simp
  then show ?thesis
    using assms by (simp add: pkcs7_unpad_def Let_def list_all_iff)
qed

lemma pkcs7_unpad_pad: "pkcs7_unpad (pkcs7_pad d) = Inr d"
proof -
  let ?n = "16 - length d mod 16"
  have "unat (of_nat ?n :: byte) = ?n" by (rule unat_of_nat_byte) simp
  then have "pkcs7_unpad (d @ replicate ?n (of_nat ?n)) = Inr d"
    by (intro pkcs7_unpad_replicate) simp_all
  then show ?thesis by (simp only: pkcs7_pad_def Let_def)
qed

lemma cipher_update_final_nonempty:
  assumes rk: "\<forall>k\<in>set rk. length k = 16" and iv: "length iv = 16"
  shows "cipher_update_final rk iv d \<noteq> []"
proof -
  let ?ps = "blocks (pkcs7_pad d)"
  have ps16: "\<forall>p\<in>set ?ps. length p = 16"
    by (rule blocks_length16) (rule length_pkcs7_pad)
  have cs16: "\<forall>c\<in>set (cbc_enc rk iv ?ps). length c = 16"
    using rk iv ps16 by (rule cbc_enc_length16)
  have ne: "cbc_enc rk iv ?ps \<noteq> []"
    using length_cbc_enc [of rk iv ?ps] pkcs7_pad_nonempty [of d]
    by (auto simp: blocks_eq_Nil)
  then obtain c cs where ccs: "cbc_enc rk iv ?ps = c # cs" by (cases "cbc_enc rk iv ?ps") auto
  with cs16 have "length c = 16" by simp
  with ccs show ?thesis
    by (auto simp: cipher_update_final_def)
qed

lemma decipher_cipher_update_final:
  assumes rk: "\<forall>k\<in>set rk. length k = 16" and iv: "length iv = 16"
  shows "decipher_update_final rk iv (cipher_update_final rk iv d) = Inr d"
proof -
  let ?ps = "blocks (pkcs7_pad d)"
  have ps16: "\<forall>p\<in>set ?ps. length p = 16"
    by (rule blocks_length16) (rule length_pkcs7_pad)
  have cs16: "\<forall>c\<in>set (cbc_enc rk iv ?ps). length c = 16"
    using rk iv ps16 by (rule cbc_enc_length16)
  have nonempty: "cipher_update_final rk iv d \<noteq> []"
    using rk iv by (rule cipher_update_final_nonempty)
  have "length (concat (cbc_enc rk iv ?ps)) = 16 * length (cbc_enc rk iv ?ps)"
    using cs16 by (rule length_concat16)
  then have len: "length (cipher_update_final rk iv d) mod 16 = 0"
    by (simp add: cipher_update_final_def)
  have bl: "blocks (cipher_update_final rk iv d) = cbc_enc rk iv ?ps"
    unfolding cipher_update_final_def using cs16 by (rule blocks_concat)
  have out: "concat (cbc_dec rk iv (blocks (cipher_update_final rk iv d))) = pkcs7_pad d"
    using rk iv ps16 by (simp add: bl cbc_dec_cbc_enc concat_blocks)
  show ?thesis
    unfolding decipher_update_final_def out using nonempty len
    by (simp add: pkcs7_unpad_pad)
qed

section \<open>Hexadecimal and split\<close>

lemma unat_of_nat_unit: "n < 65536 \<Longrightarrow> unat (of_nat n :: 16 word) = n"
  by (simp add: unat_of_nat)

lemma unat_hex_digit: "n < 16 \<Longrightarrow> unat (hex_digit n) = (if n < 10 then 0x30 + n else 0x57 + n)"
  by (simp add: hex_digit_def unat_of_nat_unit del: of_nat_add)

lemma unhex_hex_digit: "n < 16 \<Longrightarrow> unhex (hex_digit n) = Some n"
  by (simp add: unhex_def unat_hex_digit Let_def)

lemma hex_digit_not_colon: "n < 16 \<Longrightarrow> hex_digit n \<noteq> colon"
proof
  assume "n < 16" "hex_digit n = colon"
  then have "unat (hex_digit n) = unat colon" by simp
  with \<open>n < 16\<close> show False by (simp add: unat_hex_digit colon_def split: if_splits)
qed

lemma byte_nibbles: "unat (b :: byte) div 16 < 16" "unat b mod 16 < 16"
  using unat_byte_less [of b] by simp_all

lemma byte_of_nibbles: "of_nat (16 * (unat b div 16) + unat b mod 16) = (b :: byte)"
  by simp

lemma hex_encode_Cons:
  "hex_encode (b # bs) = hex_digit (unat b div 16) # hex_digit (unat b mod 16) # hex_encode bs"
  by (simp add: hex_encode_def)

lemma hex_encode_Nil: "hex_encode [] = []"
  by (simp add: hex_encode_def)

lemma hex_decode_encode_append: "hex_decode (hex_encode bs @ rest) = bs @ hex_decode rest"
  by (induction bs) (simp_all add: hex_encode_Cons hex_encode_Nil unhex_hex_digit byte_nibbles)

lemma hex_decode_encode: "hex_decode (hex_encode bs) = bs"
  using hex_decode_encode_append [of bs "[]"] by simp

lemma colon_notin_hex_encode: "colon \<notin> set (hex_encode bs)"
  by (induction bs) (simp_all add: hex_encode_Cons hex_encode_Nil hex_digit_not_colon [symmetric] hex_digit_not_colon byte_nibbles)

lemma length_hex_encode: "length (hex_encode bs) = 2 * length bs"
  by (induction bs) (simp_all add: hex_encode_Cons hex_encode_Nil)

lemma str_split_no_sep: "sep \<notin> set s \<Longrightarrow> str_split sep s = [s]"
  by (induction s) auto

lemma str_split_append: "sep \<notin> set a \<Longrightarrow> str_split sep (a @ sep # b) = a # str_split sep b"
  by (induction a) auto

lemma str_split_nonempty: "str_split sep s \<noteq> []"
  by (induction s) (auto split: list.splits)

section \<open>UTF-8 round trip\<close>

lemma utf8_dec_1: "u < 0x80 \<Longrightarrow> utf8_dec (u # bs) = u # utf8_dec bs"
  by simp

lemma utf8_dec_2:
  assumes "0x80 \<le> u" "u < 0x800"
  shows "utf8_dec ((0xC0 + u div 64) # (0x80 + u mod 64) # bs) = u # utf8_dec bs"
proof -
  have a: "2 \<le> u div 64" "u div 64 \<le> 31" using assms by simp_all
  have b: "u mod 64 < 64" by simp
  have c: "u div 64 * 64 + u mod 64 = u" by simp
  show ?thesis using a b c by (simp add: is_cont_def)
qed

lemma split_6_6: "(u::nat) div 4096 * 4096 + u div 64 mod 64 * 64 + u mod 64 = u"
proof -
  have "u div 64 div 64 = u div 4096" by (simp add: div_mult2_eq [symmetric])
  moreover have "u div 64 div 64 * 64 + u div 64 mod 64 = u div 64" by simp
  moreover have "u div 64 * 64 + u mod 64 = u" by simp
  ultimately show ?thesis by linarith
qed

lemma split_6_6_6:
  "(u::nat) div 262144 * 262144 + u div 4096 mod 64 * 4096 + u div 64 mod 64 * 64 + u mod 64 = u"
proof -
  have "u div 4096 div 64 = u div 262144" by (simp add: div_mult2_eq [symmetric])
  moreover have "u div 4096 div 64 * 64 + u div 4096 mod 64 = u div 4096" by simp
  moreover have "u div 4096 * 4096 + u div 64 mod 64 * 64 + u mod 64 = u" by (rule split_6_6)
  ultimately show ?thesis by linarith
qed

lemma utf8_dec_three:
  assumes "0xE0 \<le> b" "b \<le> 0xEF" "lower3 b \<le> c1" "c1 \<le> upper3 b" "is_cont c2"
  shows "utf8_dec (b # c1 # c2 # bs) =
         ((b - 0xE0) * 4096 + (c1 - 0x80) * 64 + (c2 - 0x80)) # utf8_dec bs"
  using assms by simp

lemma utf8_dec_four:
  assumes "0xF0 \<le> b" "b \<le> 0xF4" "lower4 b \<le> c1" "c1 \<le> upper4 b" "is_cont c2" "is_cont c3"
  shows "utf8_dec (b # c1 # c2 # c3 # bs) =
         ((b - 0xF0) * 262144 + (c1 - 0x80) * 4096 + (c2 - 0x80) * 64 + (c3 - 0x80)) # utf8_dec bs"
  using assms by simp

lemma utf8_dec_3:
  assumes "0x800 \<le> u" "u < 0x10000" "\<not> is_high_surrogate u" "\<not> is_low_surrogate u"
  shows "utf8_dec ((0xE0 + u div 4096) # (0x80 + u div 64 mod 64) # (0x80 + u mod 64) # bs) =
         u # utf8_dec bs"
proof -
  let ?A = "u div 4096" and ?B = "u div 64 mod 64" and ?C = "u mod 64"
  have a: "?A \<le> 15" using assms by simp
  have b: "?B < 64" "?C < 64" by simp_all
  have c: "?A * 4096 + ?B * 64 + ?C = u" by (rule split_6_6)
  have lo: "?A = 0 \<Longrightarrow> 32 \<le> ?B" using assms(1) b c by linarith
  have ns: "u < 0xD800 \<or> 0xDFFF < u"
    using assms(3,4) by (auto simp: is_high_surrogate_def is_low_surrogate_def)
  have hi: "?A = 13 \<Longrightarrow> ?B \<le> 31" using ns b c by linarith
  have "utf8_dec ((0xE0 + ?A) # (0x80 + ?B) # (0x80 + ?C) # bs) =
        ((0xE0 + ?A - 0xE0) * 4096 + (0x80 + ?B - 0x80) * 64 + (0x80 + ?C - 0x80)) # utf8_dec bs"
  proof (rule utf8_dec_three)
    show "lower3 (0xE0 + ?A) \<le> 0x80 + ?B" using lo by (auto simp: lower3_def)
    show "0x80 + ?B \<le> upper3 (0xE0 + ?A)" using hi b by (auto simp: upper3_def)
    show "is_cont (0x80 + ?C)" using b by (simp add: is_cont_def)
  qed (use a in simp_all)
  also have "(0xE0 + ?A - 0xE0) * 4096 + (0x80 + ?B - 0x80) * 64 + (0x80 + ?C - 0x80) = u"
    using c by simp
  finally show ?thesis .
qed

lemma utf8_dec_4:
  assumes "0x10000 \<le> cp" "cp < 0x110000"
  shows "utf8_dec ((0xF0 + cp div 262144) # (0x80 + cp div 4096 mod 64) #
                   (0x80 + cp div 64 mod 64) # (0x80 + cp mod 64) # bs) = cp # utf8_dec bs"
proof -
  let ?A = "cp div 262144" and ?B = "cp div 4096 mod 64" and ?C = "cp div 64 mod 64"
    and ?D = "cp mod 64"
  have a: "?A \<le> 4" using assms by simp
  have b: "?B < 64" "?C < 64" "?D < 64" by simp_all
  have c: "?A * 262144 + ?B * 4096 + ?C * 64 + ?D = cp"
    by (rule split_6_6_6)
  have lo: "?A = 0 \<Longrightarrow> 16 \<le> ?B" using assms(1) b c by linarith
  have hi: "?A = 4 \<Longrightarrow> ?B \<le> 15" using assms(2) b c by linarith
  have "utf8_dec ((0xF0 + ?A) # (0x80 + ?B) # (0x80 + ?C) # (0x80 + ?D) # bs) =
        ((0xF0 + ?A - 0xF0) * 262144 + (0x80 + ?B - 0x80) * 4096 + (0x80 + ?C - 0x80) * 64 +
         (0x80 + ?D - 0x80)) # utf8_dec bs"
  proof (rule utf8_dec_four)
    show "lower4 (0xF0 + ?A) \<le> 0x80 + ?B" using lo by (auto simp: lower4_def)
    show "0x80 + ?B \<le> upper4 (0xF0 + ?A)" using hi b by (auto simp: upper4_def)
    show "is_cont (0x80 + ?C)" using b by (simp add: is_cont_def)
    show "is_cont (0x80 + ?D)" using b by (simp add: is_cont_def)
  qed (use a in simp_all)
  also have "(0xF0 + ?A - 0xF0) * 262144 + (0x80 + ?B - 0x80) * 4096 + (0x80 + ?C - 0x80) * 64 +
         (0x80 + ?D - 0x80) = cp"
    using c by simp
  finally show ?thesis .
qed

lemma utf8_dec_replacement: "utf8_dec (0xEF # 0xBF # 0xBD # bs) = 0xFFFD # utf8_dec bs"
  by (simp add: is_cont_def lower3_def upper3_def)

lemma surrogate_pair_range:
  assumes "is_high_surrogate h" "is_low_surrogate l"
  shows "0x10000 \<le> 0x10000 + (h - 0xD800) * 1024 + (l - 0xDC00)"
    and "0x10000 + (h - 0xD800) * 1024 + (l - 0xDC00) < 0x110000"
proof -
  obtain a where a: "h = 0xD800 + a" "a < 1024"
    using assms(1) by (auto simp: is_high_surrogate_def intro: that [of "h - 0xD800"])
  obtain b where b: "l = 0xDC00 + b" "b < 1024"
    using assms(2) by (auto simp: is_low_surrogate_def intro: that [of "l - 0xDC00"])
  show "0x10000 \<le> 0x10000 + (h - 0xD800) * 1024 + (l - 0xDC00)" by simp
  show "0x10000 + (h - 0xD800) * 1024 + (l - 0xDC00) < 0x110000" using a b by simp
qed

lemma utf16_units_pair:
  assumes "is_high_surrogate h" "is_low_surrogate l"
  shows "utf16_units ((0x10000 + (h - 0xD800) * 1024 + (l - 0xDC00)) # cps) =
         h # l # utf16_units cps"
proof -
  obtain a where a: "h = 0xD800 + a" "a < 1024"
    using assms(1) by (auto simp: is_high_surrogate_def intro: that [of "h - 0xD800"])
  obtain b where b: "l = 0xDC00 + b" "b < 1024"
    using assms(2) by (auto simp: is_low_surrogate_def intro: that [of "l - 0xDC00"])
  show ?thesis by (simp add: a b)
qed

lemma utf8_enc_one: "u < 0x80 \<Longrightarrow> utf8_enc (u # us) = u # utf8_enc us"
  by simp

lemma utf8_enc_two:
  "0x80 \<le> u \<Longrightarrow> u < 0x800 \<Longrightarrow>
   utf8_enc (u # us) = (0xC0 + u div 64) # (0x80 + u mod 64) # utf8_enc us"
  by simp

lemma utf8_enc_three:
  "0x800 \<le> u \<Longrightarrow> \<not> is_high_surrogate u \<Longrightarrow> \<not> is_low_surrogate u \<Longrightarrow>
   utf8_enc (u # us) =
     (0xE0 + u div 4096) # (0x80 + u div 64 mod 64) # (0x80 + u mod 64) # utf8_enc us"
  by simp

lemma utf8_enc_pair:
  assumes "is_high_surrogate h" "is_low_surrogate l"
  shows "utf8_enc (h # l # rest) =
     (0xF0 + (0x10000 + (h - 0xD800) * 1024 + (l - 0xDC00)) div 262144) #
     (0x80 + (0x10000 + (h - 0xD800) * 1024 + (l - 0xDC00)) div 4096 mod 64) #
     (0x80 + (0x10000 + (h - 0xD800) * 1024 + (l - 0xDC00)) div 64 mod 64) #
     (0x80 + (0x10000 + (h - 0xD800) * 1024 + (l - 0xDC00)) mod 64) # utf8_enc rest"
proof -
  have "\<not> h < 0x80" "\<not> h < 0x800" using assms(1) by (simp_all add: is_high_surrogate_def)
  then show ?thesis using assms by (simp add: Let_def del: utf8_enc.simps(2)) (simp add: Let_def)
qed

lemma utf8_enc_lone_high:
  assumes "is_high_surrogate h" "us = [] \<or> \<not> is_low_surrogate (hd us)"
  shows "utf8_enc (h # us) = 0xEF # 0xBF # 0xBD # utf8_enc us"
proof -
  have "\<not> h < 0x80" "\<not> h < 0x800" using assms(1) by (simp_all add: is_high_surrogate_def)
  then show ?thesis using assms by (cases us) simp_all
qed

lemma utf8_enc_lone_low:
  assumes "is_low_surrogate u"
  shows "utf8_enc (u # us) = 0xEF # 0xBF # 0xBD # utf8_enc us"
proof -
  have "\<not> u < 0x80" "\<not> u < 0x800" "\<not> is_high_surrogate u"
    using assms by (simp_all add: is_low_surrogate_def is_high_surrogate_def)
  then show ?thesis using assms by simp
qed

lemma utf8_enc_bytes:
  "\<forall>u\<in>set us. u < 0x10000 \<Longrightarrow> \<forall>b\<in>set (utf8_enc us). b < 256"
proof (induction "length us" arbitrary: us rule: less_induct)
  case less
  show ?case
  proof (cases us)
    case Nil
    then show ?thesis by simp
  next
    case (Cons u us')
    with less.prems have u: "u < 0x10000" and us': "\<forall>u\<in>set us'. u < 0x10000" by simp_all
    have ih: "\<forall>b\<in>set (utf8_enc us'). b < 256" using less.hyps [of us'] Cons us' by simp
    have fffd: "\<forall>b\<in>set (0xEF # 0xBF # 0xBD # utf8_enc us'). b < 256" using ih by simp
    show ?thesis
    proof (cases "u < 0x80")
      case True
      then show ?thesis using ih by (simp only: Cons utf8_enc_one) simp
    next
      case one: False
      show ?thesis
      proof (cases "u < 0x800")
        case True
        with one have two: "0x80 \<le> u" "u < 0x800" by simp_all
        have "u div 64 \<le> 31" using two by simp
        then have "0xC0 + u div 64 < 256" "0x80 + u mod 64 < 256" by simp_all
        then show ?thesis using ih by (simp only: Cons utf8_enc_two [OF two]) simp
      next
        case False
        then have ge: "0x800 \<le> u" by simp
        show ?thesis
        proof (cases "is_high_surrogate u")
          case high: True
          show ?thesis
          proof (cases "us' = [] \<or> \<not> is_low_surrogate (hd us')")
            case True
            show ?thesis using fffd by (simp only: Cons utf8_enc_lone_high [OF high True])
          next
            case False
            then obtain l rest where lr: "us' = l # rest" "is_low_surrogate l"
              by (cases us') auto
            define cp where "cp = 0x10000 + (u - 0xD800) * 1024 + (l - 0xDC00)"
            have enc: "utf8_enc (u # l # rest) =
                (0xF0 + cp div 262144) # (0x80 + cp div 4096 mod 64) #
                (0x80 + cp div 64 mod 64) # (0x80 + cp mod 64) # utf8_enc rest"
              unfolding cp_def using high lr(2) by (rule utf8_enc_pair)
            have "cp < 0x110000" unfolding cp_def using high lr(2) by (rule surrogate_pair_range)
            then have "cp div 262144 \<le> 4" by simp
            then have b: "0xF0 + cp div 262144 < 256" "0x80 + cp div 4096 mod 64 < 256"
              "0x80 + cp div 64 mod 64 < 256" "0x80 + cp mod 64 < 256"
              by simp_all
            have "\<forall>u\<in>set rest. u < 0x10000" using us' lr(1) by simp
            then have "\<forall>b\<in>set (utf8_enc rest). b < 256"
              using less.hyps [of rest] Cons lr(1) by simp
            then show ?thesis using b by (simp only: Cons lr(1) enc) simp
          qed
        next
          case nohigh: False
          show ?thesis
          proof (cases "is_low_surrogate u")
            case True
            show ?thesis using fffd by (simp only: Cons utf8_enc_lone_low [OF True])
          next
            case False
            have "u div 4096 \<le> 15" using u by simp
            then have "0xE0 + u div 4096 < 256" "0x80 + u div 64 mod 64 < 256"
              "0x80 + u mod 64 < 256"
              by simp_all
            then show ?thesis
              using ih by (simp only: Cons utf8_enc_three [OF ge nohigh False]) simp
          qed
        qed
      qed
    qed
  qed
qed

lemma utf8_roundtrip_units:
  "\<forall>u\<in>set us. u < 0x10000 \<Longrightarrow> isWellFormed us \<Longrightarrow> utf16_units (utf8_dec (utf8_enc us)) = us"
proof (induction us rule: isWellFormed.induct)
  case 1
  then show ?case by simp
next
  case (2 u us)
  have u: "u < 0x10000" and us: "\<forall>u\<in>set us. u < 0x10000" using "2.prems"(1) by simp_all
  show ?case
  proof (cases "is_high_surrogate u")
    case True
    with "2.prems"(2) obtain l rest
      where lr: "us = l # rest" "is_low_surrogate l" "isWellFormed rest"
      by (cases us) auto
    let ?cp = "0x10000 + (u - 0xD800) * 1024 + (l - 0xDC00)"
    have r: "0x10000 \<le> ?cp" "?cp < 0x110000" using True lr(2) by (rule surrogate_pair_range)+
    have "\<forall>u\<in>set rest. u < 0x10000" using us lr(1) by simp
    then have ih: "utf16_units (utf8_dec (utf8_enc rest)) = rest"
      using lr(3) by (rule "2.IH"(1) [OF True lr(1)])
    have "utf8_dec (utf8_enc (u # l # rest)) = ?cp # utf8_dec (utf8_enc rest)"
      by (simp only: utf8_enc_pair [OF True lr(2)] utf8_dec_4 [OF r])
    then have "utf16_units (utf8_dec (utf8_enc (u # l # rest))) = u # l # rest"
      by (simp only: utf16_units_pair [OF True lr(2)] ih)
    then show ?thesis by (simp only: lr(1))
  next
    case False
    with "2.prems"(2) have nl: "\<not> is_low_surrogate u" and wf: "isWellFormed us" by simp_all
    have ih: "utf16_units (utf8_dec (utf8_enc us)) = us"
      by (rule "2.IH"(2) [OF False us wf])
    have units: "utf16_units (u # utf8_dec (utf8_enc us)) = u # us"
      using u ih by simp
    consider (one) "u < 0x80" | (two) "0x80 \<le> u" "u < 0x800" | (three) "0x800 \<le> u"
      by linarith
    then show ?thesis
    proof cases
      case one
      then show ?thesis using units by (simp only: utf8_enc_one utf8_dec_1)
    next
      case two
      then show ?thesis using units by (simp only: utf8_enc_two utf8_dec_2)
    next
      case three
      then show ?thesis
        using units by (simp only: utf8_enc_three [OF three False nl] utf8_dec_3 [OF three u False nl])
    qed
  qed
qed

lemma unat_unit_less: "unat (c :: 16 word) < 0x10000"
  using unsigned_less [of c, where ?'a = nat] by simp

lemma map_unat_of_nat_bytes:
  "\<forall>b\<in>set bs. b < 256 \<Longrightarrow> map unat (map of_nat bs :: byte list) = bs"
  by (induction bs) (simp_all add: unat_of_nat_byte)

lemma utf8_dec_encode: "map unat (utf8_encode s) = utf8_enc (map unat s)"
  unfolding utf8_encode_def
  by (rule map_unat_of_nat_bytes, rule utf8_enc_bytes) (simp add: unat_unit_less)

lemma utf8_decode_encode_units:
  "utf8_decode (utf8_encode s) = map of_nat (utf16_units (utf8_dec (utf8_enc (map unat s))))"
  by (simp only: utf8_decode_def utf8_dec_encode)

lemma utf8_decode_encode: "well_formed s \<Longrightarrow> utf8_decode (utf8_encode s) = s"
proof -
  assume "well_formed s"
  then have "utf16_units (utf8_dec (utf8_enc (map unat s))) = map unat s"
    unfolding well_formed_def by (intro utf8_roundtrip_units) (simp add: unat_unit_less)
  then show ?thesis
    by (simp add: utf8_decode_encode_units comp_def map_idI)
qed


lemma utf8_dec_cases:
  assumes "bs \<noteq> []"
  obtains
    (one) b r where "bs = b # r" "b < 0x80" "utf8_dec bs = b # utf8_dec r"
  | (two) b c1 r where "bs = b # c1 # r" "0xC2 \<le> b" "b \<le> 0xDF" "is_cont c1"
      "utf8_dec bs = ((b - 0xC0) * 64 + (c1 - 0x80)) # utf8_dec r"
  | (three) b c1 c2 r where "bs = b # c1 # c2 # r" "0xE0 \<le> b" "b \<le> 0xEF"
      "lower3 b \<le> c1" "c1 \<le> upper3 b" "is_cont c2"
      "utf8_dec bs = ((b - 0xE0) * 4096 + (c1 - 0x80) * 64 + (c2 - 0x80)) # utf8_dec r"
  | (four) b c1 c2 c3 r where "bs = b # c1 # c2 # c3 # r" "0xF0 \<le> b" "b \<le> 0xF4"
      "lower4 b \<le> c1" "c1 \<le> upper4 b" "is_cont c2" "is_cont c3"
      "utf8_dec bs = ((b - 0xF0) * 262144 + (c1 - 0x80) * 4096 + (c2 - 0x80) * 64 +
                      (c3 - 0x80)) # utf8_dec r"
  | (bad) r where "length r < length bs" "utf8_dec bs = 0xFFFD # utf8_dec r"
proof -
  obtain b r where bs: "bs = b # r" using assms by (cases bs) auto
  have e: "utf8_dec [] = []" by simp
  show ?thesis
  proof (cases "b < 0x80")
    case True
    then show ?thesis using bs by (intro one [of b r]) simp_all
  next
    case n1: False
    show ?thesis
    proof (cases "0xC2 \<le> b \<and> b \<le> 0xDF")
      case True
      show ?thesis
      proof (cases r)
        case Nil
        then show ?thesis using bs n1 True by (intro bad [of "[]"]) simp_all
      next
        case (Cons c1 r1)
        show ?thesis
        proof (cases "is_cont c1")
          case c: True
          show ?thesis
            using bs n1 True Cons c by (intro two [of b c1 r1]) simp_all
        next
          case False
          have "utf8_dec (b # c1 # r1) = 0xFFFD # utf8_dec (c1 # r1)"
            using n1 True False by (subst utf8_dec.simps) simp
          then show ?thesis using bs Cons by (intro bad [of r]) simp_all
        qed
      qed
    next
      case n2: False
      show ?thesis
      proof (cases "0xE0 \<le> b \<and> b \<le> 0xEF")
        case True
        show ?thesis
        proof (cases r)
          case Nil
          then show ?thesis using bs n1 n2 True by (intro bad [of "[]"]) simp_all
        next
          case (Cons c1 r1)
          show ?thesis
          proof (cases "lower3 b \<le> c1 \<and> c1 \<le> upper3 b")
            case False
            have "utf8_dec (b # c1 # r1) = 0xFFFD # utf8_dec (c1 # r1)"
              using n1 n2 True False by (subst utf8_dec.simps) auto
            then show ?thesis using bs Cons by (intro bad [of r]) simp_all
          next
            case c1: True
            show ?thesis
            proof (cases r1)
              case Nil
              have "utf8_dec [b, c1] = [0xFFFD]"
                using n1 n2 True c1 by (subst utf8_dec.simps) auto
              then show ?thesis using bs Cons Nil by (intro bad [of "[]"]) simp_all
            next
              case r1: (Cons c2 r2)
              show ?thesis
              proof (cases "is_cont c2")
                case c2: True
                have "utf8_dec (b # c1 # c2 # r2) =
                    ((b - 0xE0) * 4096 + (c1 - 0x80) * 64 + (c2 - 0x80)) # utf8_dec r2"
                  using True c1 c2 by (intro utf8_dec_three) simp_all
                then show ?thesis
                  using bs Cons r1 True c1 c2 by (intro three [of b c1 c2 r2]) simp_all
              next
                case False
                have "utf8_dec (b # c1 # c2 # r2) = 0xFFFD # utf8_dec (c2 # r2)"
                  using n1 n2 True c1 False by (subst utf8_dec.simps) auto
                then show ?thesis using bs Cons r1 by (intro bad [of r1]) simp_all
              qed
            qed
          qed
        qed
      next
        case n3: False
        show ?thesis
        proof (cases "0xF0 \<le> b \<and> b \<le> 0xF4")
          case False
          have "utf8_dec (b # r) = 0xFFFD # utf8_dec r"
            using n1 n2 n3 False by (subst utf8_dec.simps) auto
          then show ?thesis using bs by (intro bad [of r]) simp_all
        next
          case True
          show ?thesis
          proof (cases r)
            case Nil
            have "utf8_dec [b] = [0xFFFD]"
              using n1 n2 n3 True by (subst utf8_dec.simps) auto
            then show ?thesis using bs Nil by (intro bad [of "[]"]) simp_all
          next
            case (Cons c1 r1)
            show ?thesis
            proof (cases "lower4 b \<le> c1 \<and> c1 \<le> upper4 b")
              case False
              have "utf8_dec (b # c1 # r1) = 0xFFFD # utf8_dec (c1 # r1)"
                using n1 n2 n3 True False by (subst utf8_dec.simps) auto
              then show ?thesis using bs Cons by (intro bad [of r]) simp_all
            next
              case c1: True
              show ?thesis
              proof (cases r1)
                case Nil
                have "utf8_dec [b, c1] = [0xFFFD]"
                  using n1 n2 n3 True c1 by (subst utf8_dec.simps) auto
                then show ?thesis using bs Cons Nil by (intro bad [of "[]"]) simp_all
              next
                case r1: (Cons c2 r2)
                show ?thesis
                proof (cases "is_cont c2")
                  case False
                  have "utf8_dec (b # c1 # c2 # r2) = 0xFFFD # utf8_dec (c2 # r2)"
                    using n1 n2 n3 True c1 False by (subst utf8_dec.simps) auto
                  then show ?thesis using bs Cons r1 by (intro bad [of r1]) simp_all
                next
                  case c2: True
                  show ?thesis
                  proof (cases r2)
                    case Nil
                    have "utf8_dec [b, c1, c2] = [0xFFFD]"
                      using n1 n2 n3 True c1 c2 by (subst utf8_dec.simps) auto
                    then show ?thesis using bs Cons r1 Nil by (intro bad [of "[]"]) simp_all
                  next
                    case r2: (Cons c3 r3)
                    show ?thesis
                    proof (cases "is_cont c3")
                      case c3: True
                      have "utf8_dec (b # c1 # c2 # c3 # r3) =
                          ((b - 0xF0) * 262144 + (c1 - 0x80) * 4096 + (c2 - 0x80) * 64 +
                           (c3 - 0x80)) # utf8_dec r3"
                        using True c1 c2 c3 by (intro utf8_dec_four) simp_all
                      then show ?thesis
                        using bs Cons r1 r2 True c1 c2 c3
                        by (intro four [of b c1 c2 c3 r3]) simp_all
                    next
                      case False
                      have "utf8_dec (b # c1 # c2 # c3 # r3) = 0xFFFD # utf8_dec (c3 # r3)"
                        using n1 n2 n3 True c1 c2 False by (subst utf8_dec.simps) auto
                      then show ?thesis using bs Cons r1 r2 by (intro bad [of r2]) simp_all
                    qed
                  qed
                qed
              qed
            qed
          qed
        qed
      qed
    qed
  qed
qed

lemma join_6: "y < 64 \<Longrightarrow> ((x::nat) * 64 + y) div 64 = x \<and> (x * 64 + y) mod 64 = y"
  by simp

lemma join_6_6:
  fixes x y z :: nat
  assumes "y < 64" "z < 64"
  shows "(x * 4096 + y * 64 + z) div 4096 = x"
    and "(x * 4096 + y * 64 + z) div 64 mod 64 = y"
    and "(x * 4096 + y * 64 + z) mod 64 = z"
proof -
  have e: "x * 4096 + y * 64 + z = (x * 64 + y) * 64 + z" by simp
  have d: "(x * 4096 + y * 64 + z) div 64 = x * 64 + y"
    unfolding e using join_6 [OF assms(2)] by blast
  show "(x * 4096 + y * 64 + z) mod 64 = z"
    unfolding e using join_6 [OF assms(2)] by blast
  show "(x * 4096 + y * 64 + z) div 64 mod 64 = y"
    unfolding d using join_6 [OF assms(1)] by blast
  have "(x * 4096 + y * 64 + z) div 4096 = (x * 4096 + y * 64 + z) div 64 div 64"
    by (simp add: div_mult2_eq [symmetric])
  then show "(x * 4096 + y * 64 + z) div 4096 = x"
    unfolding d using join_6 [OF assms(1)] by simp
qed

lemma join_6_6_6:
  fixes x y z t :: nat
  assumes "y < 64" "z < 64" "t < 64"
  shows "(x * 262144 + y * 4096 + z * 64 + t) div 262144 = x"
    and "(x * 262144 + y * 4096 + z * 64 + t) div 4096 mod 64 = y"
    and "(x * 262144 + y * 4096 + z * 64 + t) div 64 mod 64 = z"
    and "(x * 262144 + y * 4096 + z * 64 + t) mod 64 = t"
proof -
  have e: "x * 262144 + y * 4096 + z * 64 + t = (x * 64 + y) * 4096 + z * 64 + t" by simp
  show "(x * 262144 + y * 4096 + z * 64 + t) div 64 mod 64 = z"
    unfolding e using assms(2,3) by (rule join_6_6)
  show "(x * 262144 + y * 4096 + z * 64 + t) mod 64 = t"
    unfolding e using assms(2,3) by (rule join_6_6)
  have d: "(x * 262144 + y * 4096 + z * 64 + t) div 4096 = x * 64 + y"
    unfolding e using assms(2,3) by (rule join_6_6)
  show "(x * 262144 + y * 4096 + z * 64 + t) div 4096 mod 64 = y"
    unfolding d using join_6 [OF assms(1)] by blast
  have "(x * 262144 + y * 4096 + z * 64 + t) div 262144 =
        (x * 262144 + y * 4096 + z * 64 + t) div 4096 div 64"
    by (simp add: div_mult2_eq [symmetric])
  then show "(x * 262144 + y * 4096 + z * 64 + t) div 262144 = x"
    unfolding d using join_6 [OF assms(1)] by simp
qed

lemma utf8_dec_bound: "\<forall>cp\<in>set (utf8_dec bs). cp < 0x110000"
proof (induction "length bs" arbitrary: bs rule: less_induct)
  case less
  show ?case
  proof (cases "bs = []")
    case True
    then show ?thesis by simp
  next
    case False
    then show ?thesis
    proof (cases rule: utf8_dec_cases)
      case (one b r)
      then show ?thesis using less [of r] by simp
    next
      case (two b c1 r)
      have "b - 0xC0 \<le> 31" "c1 - 0x80 \<le> 63" using two(3,4) by (auto simp: is_cont_def)
      then have "(b - 0xC0) * 64 + (c1 - 0x80) < 0x110000" by linarith
      then show ?thesis using two(1,5) less [of r] by simp
    next
      case (three b c1 c2 r)
      have "b - 0xE0 \<le> 15" "c1 - 0x80 \<le> 63" "c2 - 0x80 \<le> 63"
        using three(3,5,6) by (auto simp: is_cont_def upper3_def split: if_splits)
      then have "(b - 0xE0) * 4096 + (c1 - 0x80) * 64 + (c2 - 0x80) < 0x110000"
        by linarith
      then show ?thesis using three(1,7) less [of r] by simp
    next
      case (four b c1 c2 c3 r)
      have "c2 - 0x80 \<le> 63" "c3 - 0x80 \<le> 63" using four(6,7) by (auto simp: is_cont_def)
      moreover have "(b - 0xF0) * 262144 + (c1 - 0x80) * 4096 \<le> 0x10F000"
      proof (cases "b = 0xF4")
        case True
        then have "c1 - 0x80 \<le> 15" using four(5) by (simp add: upper4_def)
        with True show ?thesis by simp
      next
        case False
        then have "b - 0xF0 \<le> 3" "c1 - 0x80 \<le> 63"
          using four(3,5) by (auto simp: upper4_def)
        then show ?thesis by linarith
      qed
      ultimately have "(b - 0xF0) * 262144 + (c1 - 0x80) * 4096 + (c2 - 0x80) * 64 +
          (c3 - 0x80) < 0x110000"
        by linarith
      then show ?thesis using four(1,8) less [of r] by simp
    next
      case (bad r)
      then show ?thesis using less [of r] by simp
    qed
  qed
qed

lemma utf16_units_bound:
  "\<forall>cp\<in>set cps. cp < 0x110000 \<Longrightarrow> \<forall>u\<in>set (utf16_units cps). u < 0x10000"
proof (induction cps)
  case Nil
  then show ?case by simp
next
  case (Cons cp cps)
  then have ih: "\<forall>u\<in>set (utf16_units cps). u < 0x10000" by simp
  show ?case
  proof (cases "cp < 0x10000")
    case True
    then show ?thesis using ih by simp
  next
    case False
    have "cp < 0x110000" using Cons.prems by simp
    then have "(cp - 0x10000) div 1024 < 1024" by simp
    moreover have "(cp - 0x10000) mod 1024 < 1024" by simp
    ultimately have "0xD800 + (cp - 0x10000) div 1024 < 0x10000"
      "0xDC00 + (cp - 0x10000) mod 1024 < 0x10000" by linarith+
    then show ?thesis using False ih by simp
  qed
qed

lemma replacement_kept: "0xFFFD \<in> set cps \<Longrightarrow> 0xFFFD \<in> set (utf16_units cps)"
  by (induction cps) auto

lemma utf8_enc_dec:
  "0xFFFD \<notin> set (utf8_dec bs) \<Longrightarrow> utf8_enc (utf16_units (utf8_dec bs)) = bs"
proof (induction "length bs" arbitrary: bs rule: less_induct)
  case less
  show ?case
  proof (cases "bs = []")
    case True
    then show ?thesis by simp
  next
    case False
    then show ?thesis
    proof (cases rule: utf8_dec_cases)
      case (one b r)
      have ih: "utf8_enc (utf16_units (utf8_dec r)) = r"
        using less.hyps [of r] less.prems one by simp
      have "utf16_units (utf8_dec bs) = b # utf16_units (utf8_dec r)"
        using one(2) by (simp add: one(3))
      then show ?thesis using ih one(1,2) by (simp only: utf8_enc_one)
    next
      case (two b c1 r)
      define x where "x = b - 0xC0"
      define y where "y = c1 - 0x80"
      define cp where "cp = x * 64 + y"
      have xy: "2 \<le> x" "x \<le> 31" "y < 64" "b = 0xC0 + x" "c1 = 0x80 + y"
        using two(2-4) by (auto simp: x_def y_def is_cont_def)
      have dm: "cp div 64 = x" "cp mod 64 = y"
        unfolding cp_def using join_6 [OF xy(3)] by blast+
      have r: "0x80 \<le> cp" "cp < 0x800" unfolding cp_def using xy(1-3) by linarith+
      have dec: "utf8_dec bs = cp # utf8_dec r" using two(5) by (simp only: cp_def x_def y_def)
      have ih: "utf8_enc (utf16_units (utf8_dec r)) = r"
        using less.hyps [of r] less.prems two(1) dec by simp
      have "utf16_units (utf8_dec bs) = cp # utf16_units (utf8_dec r)"
        using r by (simp add: dec)
      then have "utf8_enc (utf16_units (utf8_dec bs)) =
          (0xC0 + cp div 64) # (0x80 + cp mod 64) # r"
        using ih by (simp only: utf8_enc_two [OF r])
      then show ?thesis by (simp only: dm two(1) xy(4,5))
    next
      case (three b c1 c2 r)
      define x where "x = b - 0xE0"
      define y where "y = c1 - 0x80"
      define z where "z = c2 - 0x80"
      define cp where "cp = x * 4096 + y * 64 + z"
      have c1: "0x80 \<le> c1" "c1 \<le> 0xBF"
        using three(4,5) by (auto simp: lower3_def upper3_def split: if_splits)
      have xyz: "x \<le> 15" "y < 64" "z < 64" "b = 0xE0 + x" "c1 = 0x80 + y" "c2 = 0x80 + z"
        using three(2,3,6) c1 by (auto simp: x_def y_def z_def is_cont_def)
      have lo: "x = 0 \<Longrightarrow> 32 \<le> y"
        using three(4) xyz(4,5) by (simp add: lower3_def)
      have hi: "x = 13 \<Longrightarrow> y \<le> 31"
        using three(5) xyz(4,5) by (simp add: upper3_def)
      have dm: "cp div 4096 = x" "cp div 64 mod 64 = y" "cp mod 64 = z"
        unfolding cp_def using xyz(2,3) by (rule join_6_6)+
      have r: "0x800 \<le> cp" "cp < 0x10000"
        unfolding cp_def using xyz(1-3) lo by linarith+
      consider "x \<le> 12" | "x = 13" | "14 \<le> x" by linarith
      then have nsr: "cp < 0xD800 \<or> 0xDFFF < cp"
      proof cases
        case 1
        then show ?thesis unfolding cp_def using xyz(2,3) by linarith
      next
        case 2
        then show ?thesis unfolding cp_def using xyz(3) hi by simp
      next
        case 3
        then show ?thesis unfolding cp_def by linarith
      qed
      have ns: "\<not> is_high_surrogate cp" "\<not> is_low_surrogate cp"
        unfolding is_high_surrogate_def is_low_surrogate_def
        using nsr by linarith+
      have dec: "utf8_dec bs = cp # utf8_dec r"
        using three(7) by (simp only: cp_def x_def y_def z_def)
      have ih: "utf8_enc (utf16_units (utf8_dec r)) = r"
        using less.hyps [of r] less.prems three(1) dec by simp
      have "utf16_units (utf8_dec bs) = cp # utf16_units (utf8_dec r)"
        using r by (simp add: dec)
      then have "utf8_enc (utf16_units (utf8_dec bs)) =
          (0xE0 + cp div 4096) # (0x80 + cp div 64 mod 64) # (0x80 + cp mod 64) # r"
        using ih by (simp only: utf8_enc_three [OF r(1) ns])
      then show ?thesis by (simp only: dm three(1) xyz(4-6))
    next
      case (four b c1 c2 c3 r)
      define x where "x = b - 0xF0"
      define y where "y = c1 - 0x80"
      define z where "z = c2 - 0x80"
      define t where "t = c3 - 0x80"
      define cp where "cp = x * 262144 + y * 4096 + z * 64 + t"
      have c1: "0x80 \<le> c1" "c1 \<le> 0xBF"
        using four(4,5) by (auto simp: lower4_def upper4_def split: if_splits)
      have xyz: "x \<le> 4" "y < 64" "z < 64" "t < 64"
        "b = 0xF0 + x" "c1 = 0x80 + y" "c2 = 0x80 + z" "c3 = 0x80 + t"
        using four(2,3,6,7) c1 by (auto simp: x_def y_def z_def t_def is_cont_def)
      have lo: "x = 0 \<Longrightarrow> 16 \<le> y"
        using four(4) xyz(5,6) by (simp add: lower4_def)
      have hi: "x = 4 \<Longrightarrow> y \<le> 15"
        using four(5) xyz(5,6) by (simp add: upper4_def)
      have dm: "cp div 262144 = x" "cp div 4096 mod 64 = y" "cp div 64 mod 64 = z"
        "cp mod 64 = t"
        unfolding cp_def using xyz(2-4) by (rule join_6_6_6)+
      have r: "0x10000 \<le> cp" "cp < 0x110000"
        unfolding cp_def using xyz(1-4) lo hi by linarith+
      define h where "h = 0xD800 + (cp - 0x10000) div 1024"
      define l where "l = 0xDC00 + (cp - 0x10000) mod 1024"
      have "(cp - 0x10000) div 1024 < 1024" using r(2) by simp
      then have hs: "is_high_surrogate h" unfolding h_def is_high_surrogate_def by linarith
      have "(cp - 0x10000) mod 1024 < 1024" by simp
      then have lsur: "is_low_surrogate l" unfolding l_def is_low_surrogate_def by linarith
      have "(cp - 0x10000) div 1024 * 1024 + (cp - 0x10000) mod 1024 = cp - 0x10000" by simp
      then have rejoin: "0x10000 + (h - 0xD800) * 1024 + (l - 0xDC00) = cp"
        unfolding h_def l_def using r(1) by simp
      have dec: "utf8_dec bs = cp # utf8_dec r"
        using four(8) by (simp only: cp_def x_def y_def z_def t_def)
      have ih: "utf8_enc (utf16_units (utf8_dec r)) = r"
        using less.hyps [of r] less.prems four(1) dec by simp
      have "utf16_units (utf8_dec bs) = h # l # utf16_units (utf8_dec r)"
        using r(1) by (simp add: dec h_def l_def)
      then have "utf8_enc (utf16_units (utf8_dec bs)) =
          (0xF0 + cp div 262144) # (0x80 + cp div 4096 mod 64) #
          (0x80 + cp div 64 mod 64) # (0x80 + cp mod 64) # r"
        using ih by (simp only: utf8_enc_pair [OF hs lsur] rejoin)
      then show ?thesis by (simp only: dm four(1) xyz(5-8))
    next
      case (bad r)
      then show ?thesis using less.prems by simp
    qed
  qed
qed

lemma map_unat_of_nat_units:
  "\<forall>u\<in>set us. u < 0x10000 \<Longrightarrow> map unat (map of_nat us :: 16 word list) = us"
  by (induction us) (simp_all add: unat_of_nat_unit)

lemma utf8_decode_inject:
  assumes "utf8_decode d = P" "0xFFFD \<notin> set P"
  shows "utf8_encode P = d"
proof -
  let ?cps = "utf8_dec (map unat d)"
  let ?us = "utf16_units ?cps"
  have P: "P = map of_nat ?us" using assms(1) by (simp add: utf8_decode_def)
  have b: "\<forall>u\<in>set ?us. u < 0x10000"
    by (rule utf16_units_bound) (rule utf8_dec_bound)
  then have u: "map unat P = ?us"
    unfolding P by (rule map_unat_of_nat_units)
  have "0xFFFD \<notin> set ?cps"
  proof
    assume "0xFFFD \<in> set ?cps"
    then have "0xFFFD \<in> set ?us" by (rule replacement_kept)
    then have "of_nat 0xFFFD \<in> set P" unfolding P by (simp only: set_map) (rule imageI)
    with assms(2) show False by simp
  qed
  then have "utf8_enc ?us = map unat d" by (rule utf8_enc_dec)
  then have "utf8_encode P = map of_nat (map unat d)"
    by (simp only: utf8_encode_def u)
  then show ?thesis by (simp add: comp_def)
qed
section \<open>What encrypt returns and what decrypt computes\<close>

lemma js_colon: "js '':'' = [colon]"
  by (simp add: js_def colon_def)

lemma length_drawn_iv: "length (drawn_iv r) = 16"
  by (simp add: drawn_iv_def randomBytes_def)

lemma encrypt_valid:
  assumes "valid_key env"
  shows "fst (encrypt env r text) =
         Inr (hex_encode (drawn_iv r) @ [colon] @
              hex_encode (cipher_update_final (module_round_keys env) (drawn_iv r) (utf8_encode text)))"
  using assms
  by (simp add: encrypt_def valid_key_def createCipheriv_def module_round_keys_def js_colon
      drawn_iv_def randomBytes_def)

lemma encrypt_invalid_key:
  assumes "\<not> valid_key env"
  shows "fst (encrypt env r text) = Inl InvalidKeyLength"
  using assms
  by (simp add: encrypt_def valid_key_def createCipheriv_def drawn_iv_def randomBytes_def)

lemma decrypt_no_colon: "colon \<notin> set text \<Longrightarrow> decrypt env text = Inl TypeError"
  by (simp add: decrypt_def str_split_no_sep)

lemma decrypt_two_fields:
  "colon \<notin> set a \<Longrightarrow> colon \<notin> set b \<Longrightarrow> decrypt env (a @ colon # b) = decrypt_fields env a b"
  by (simp add: decrypt_def str_split_append str_split_no_sep decrypt_fields_def Let_def)

lemma decrypt_more_fields:
  "colon \<notin> set a \<Longrightarrow> colon \<notin> set b \<Longrightarrow>
   decrypt env (a @ colon # b @ colon # rest) = decrypt_fields env a b"
proof -
  assume a: "colon \<notin> set a" and b: "colon \<notin> set b"
  obtain p ps where "str_split colon rest = p # ps"
    using str_split_nonempty [of colon rest] by (cases "str_split colon rest") auto
  with a b show ?thesis
    by (simp add: decrypt_def str_split_append decrypt_fields_def Let_def)
qed

lemma module_round_keys_length:
  "valid_key env \<Longrightarrow> \<forall>k\<in>set (module_round_keys env). length k = 16"
  unfolding module_round_keys_def valid_key_def by (rule round_keys_key_expansion)

lemma decrypt_fields_valid:
  assumes "valid_key env" "length (hex_decode p0) = 16"
  shows "decrypt_fields env p0 p1 =
         (case decipher_update_final (module_round_keys env) (hex_decode p0) (hex_decode p1) of
            Inl e \<Rightarrow> Inl e
          | Inr decrypted \<Rightarrow> Inr (utf8_decode decrypted))"
  using assms
  by (simp add: decrypt_fields_def createDecipheriv_def createCipheriv_def valid_key_def
      module_round_keys_def)

lemma decrypt_fields_encrypted:
  assumes "valid_key env" "length iv = 16"
  shows "decrypt_fields env (hex_encode iv)
           (hex_encode (cipher_update_final (module_round_keys env) iv data)) =
         Inr (utf8_decode data)"
  using assms
  by (simp add: decrypt_fields_valid hex_decode_encode decipher_cipher_update_final
      module_round_keys_length)

lemma decrypt_encrypt_bytes:
  assumes "valid_key env"
  shows "\<exists>enc. fst (encrypt env r text) = Inr enc \<and>
               decrypt env enc = Inr (utf8_decode (utf8_encode text))"
  using assms
  by (simp add: encrypt_valid decrypt_two_fields colon_notin_hex_encode
      decrypt_fields_encrypted length_drawn_iv)






lemma decrypt_fields_junk:
  assumes "valid_key env" "length iv = 16" "hex_decode junk = []"
  shows "decrypt_fields env (hex_encode iv)
           (hex_encode (cipher_update_final (module_round_keys env) iv data) @ junk) =
         Inr (utf8_decode data)"
  using assms
  by (simp add: decrypt_fields_valid hex_decode_encode hex_decode_encode_append
      decipher_cipher_update_final module_round_keys_length)

lemma unat_upper_unit:
  "unat (upper_unit c) = (if 0x61 \<le> unat c \<and> unat c \<le> 0x7A then unat c - 0x20 else unat c)"
proof (cases "0x61 \<le> unat c \<and> unat c \<le> 0x7A")
  case True
  then have "(0x20 :: 16 word) \<le> c" by (simp add: word_le_nat_alt)
  then have "unat (c - 0x20) = unat c - unat (0x20 :: 16 word)" by (rule unat_sub)
  moreover have "upper_unit c = c - 0x20" using True by (simp add: upper_unit_def)
  ultimately show ?thesis using True by simp
next
  case False
  then have "upper_unit c = c" by (simp add: upper_unit_def)
  moreover from False
  have "(if 0x61 \<le> unat c \<and> unat c \<le> 0x7A then unat c - 0x20 else unat c) = unat c"
    by (rule if_not_P)
  ultimately show ?thesis by (simp only:)
qed

lemma unhex_upper_unit: "unhex (upper_unit c) = unhex c"
proof (cases "0x61 \<le> unat c \<and> unat c \<le> 0x7A")
  case True
  then have "unat (upper_unit c) = unat c - 0x20" by (simp add: unat_upper_unit)
  moreover have "unat c mod 256 = unat c" using True by simp
  moreover have "unat c - 0x20 < 256" using True by linarith
  then have "(unat c - 0x20) mod 256 = unat c - 0x20" by (rule mod_less)
  ultimately show ?thesis using True unfolding unhex_def Let_def by auto
next
  case False
  then have "upper_unit c = c" by (simp add: upper_unit_def)
  then show ?thesis by simp
qed

lemma hex_decode_toUpperCase: "hex_decode (toUpperCase s) = hex_decode s"
  by (induction s rule: hex_decode.induct)
     (simp_all add: toUpperCase_def unhex_upper_unit split: option.splits)

lemma upper_unit_colon: "upper_unit c = colon \<longleftrightarrow> c = colon"
proof
  assume "upper_unit c = colon"
  then have "unat (upper_unit c) = 0x3A" by (simp add: colon_def)
  then have "unat c = 0x3A" by (simp add: unat_upper_unit split: if_splits)
  then have "unat c = unat colon" by (simp add: colon_def)
  then show "c = colon" by (simp only: word_unat_eq_iff)
next
  assume "c = colon"
  then show "upper_unit c = colon" by (simp add: upper_unit_def colon_def)
qed

lemma colon_in_toUpperCase: "colon \<in> set (toUpperCase s) \<longleftrightarrow> colon \<in> set s"
proof (induction s)
  case Nil
  then show ?case by (simp add: toUpperCase_def)
next
  case (Cons c s)
  have "colon = upper_unit c \<longleftrightarrow> colon = c"
    using upper_unit_colon [of c] by auto
  with Cons show ?case by (simp add: toUpperCase_def)
qed

lemma decrypt_fields_toUpperCase:
  "decrypt_fields env (toUpperCase a) b = decrypt_fields env a b"
  "decrypt_fields env a (toUpperCase b) = decrypt_fields env a b"
  by (simp_all only: decrypt_fields_def hex_decode_toUpperCase)

lemma hex_encode_inject:
  assumes "hex_encode a = hex_encode b"
  shows "a = b"
proof -
  have "hex_decode (hex_encode a) = hex_decode (hex_encode b)"
    using assms by (rule arg_cong)
  then show ?thesis by (simp only: hex_decode_encode)
qed

lemma length_cipher_update_final:
  assumes rk: "\<forall>k\<in>set rk. length k = 16" and iv: "length iv = 16"
  shows "length (cipher_update_final rk iv d) = length (pkcs7_pad d)"
proof -
  let ?ps = "blocks (pkcs7_pad d)"
  have ps16: "\<forall>p\<in>set ?ps. length p = 16"
    by (rule blocks_length16) (rule length_pkcs7_pad)
  have cs16: "\<forall>c\<in>set (cbc_enc rk iv ?ps). length c = 16"
    using rk iv ps16 by (rule cbc_enc_length16)
  have "length (concat (cbc_enc rk iv ?ps)) = 16 * length (cbc_enc rk iv ?ps)"
    using cs16 by (rule length_concat16)
  also have "\<dots> = 16 * length ?ps" by (simp add: length_cbc_enc)
  also have "\<dots> = length (concat ?ps)" using ps16 by (rule length_concat16 [symmetric])
  finally show ?thesis by (simp add: cipher_update_final_def concat_blocks)
qed

lemma decrypt_fields_other_key:
  assumes v1: "valid_key env1" and v2: "valid_key env2" and iv: "length iv = 16"
  shows "decrypt_fields env2 (hex_encode iv)
           (hex_encode (cipher_update_final (module_round_keys env1) iv data)) =
         (case pkcs7_unpad (concat (cbc_dec (module_round_keys env2) iv
                 (blocks (cipher_update_final (module_round_keys env1) iv data)))) of
            Inl e \<Rightarrow> Inl e
          | Inr bs \<Rightarrow> Inr (utf8_decode bs))"
proof -
  let ?ct = "cipher_update_final (module_round_keys env1) iv data"
  have ne: "?ct \<noteq> []"
    using module_round_keys_length [OF v1] iv by (rule cipher_update_final_nonempty)
  have "length ?ct = length (pkcs7_pad data)"
    using module_round_keys_length [OF v1] iv by (rule length_cipher_update_final)
  then have m: "length ?ct mod 16 = 0" by (simp add: length_pkcs7_pad)
  have "decipher_update_final (module_round_keys env2) iv ?ct =
        pkcs7_unpad (concat (cbc_dec (module_round_keys env2) iv (blocks ?ct)))"
    using ne m by (simp add: decipher_update_final_def)
  then show ?thesis
    using v2 iv by (simp add: decrypt_fields_valid hex_decode_encode)
qed

lemma pkcs7_unpad_cases: "pkcs7_unpad out = Inl BadDecrypt \<or> (\<exists>bs. pkcs7_unpad out = Inr bs)"
  by (simp add: pkcs7_unpad_def Let_def)
lemma length_inv_shift_rows: "length (inv_shift_rows s) = length s"
  by (cases s rule: inv_shift_rows.cases) simp_all

lemma length_inv_mix_columns: "length (inv_mix_columns s) = length s"
  by (induction s rule: inv_mix_columns.induct) simp_all

lemma length_inv_round: "length s \<le> length k \<Longrightarrow> length (inv_round k s) = length s"
  by (simp add: inv_round_def inv_sub_bytes_def length_inv_shift_rows length_inv_mix_columns
      add_round_key_def length_xor_bytes)

lemma length_inv_final_round:
  "length s \<le> length k \<Longrightarrow> length (inv_final_round k s) = length s"
  by (simp add: inv_final_round_def inv_sub_bytes_def length_inv_shift_rows
      add_round_key_def length_xor_bytes)

lemma length_inv_rounds:
  "\<forall>k\<in>set ks. length s \<le> length k \<Longrightarrow> length (inv_rounds ks s) = length s"
  by (induction ks s rule: inv_rounds.induct)
     (simp_all add: length_inv_final_round length_inv_round)

lemma length_inv_cipher:
  "\<forall>k\<in>set rk. length s \<le> length k \<Longrightarrow> length (inv_cipher rk s) = length s"
  by (cases rk)
     (simp_all add: inv_cipher_def length_inv_rounds add_round_key_def length_xor_bytes)

lemma blocks_append:
  "length a mod 16 = 0 \<Longrightarrow> blocks (a @ b) = blocks a @ blocks b"
proof (induction a rule: blocks.induct)
  case (1 a)
  show ?case
  proof (cases "a = []")
    case True
    then show ?thesis by (simp add: blocks_eq_Nil [THEN iffD2])
  next
    case False
    then have "0 < length a" by simp
    with 1(2) have "16 \<le> length a \<and> (length a - 16) mod 16 = 0" by (rule mod16_step)
    then have ge: "16 \<le> length a" and m: "length (drop 16 a) mod 16 = 0" by simp_all
    have ih: "blocks (drop 16 a @ b) = blocks (drop 16 a) @ blocks b"
      using 1(1) False m by blast
    have "blocks (a @ b) = take 16 (a @ b) # blocks (drop 16 (a @ b))"
      using False by (intro blocks_nonempty) simp
    also have "\<dots> = take 16 a # blocks (drop 16 a @ b)" using ge by simp
    also have "\<dots> = (take 16 a # blocks (drop 16 a)) @ blocks b" using ih by simp
    also have "take 16 a # blocks (drop 16 a) = blocks a"
      using False by (rule blocks_nonempty [symmetric])
    finally show ?thesis .
  qed
qed

lemma blocks_two:
  assumes "length c1 = 16" "length c2 = 16"
  shows "blocks (c1 @ c2) = [c1, c2]"
  using blocks_concat [of "[c1, c2]"] assms by simp

lemma cbc_dec_append:
  "cbc_dec rk prev (xs @ ys) = cbc_dec rk prev xs @ cbc_dec rk (last (prev # xs)) ys"
  by (induction xs arbitrary: prev) simp_all

lemma length_concat_cbc_dec:
  assumes "\<forall>k\<in>set rk. length k = 16"
  shows "length prev = 16 \<Longrightarrow> \<forall>c\<in>set cs. length c = 16 \<Longrightarrow>
         length (concat (cbc_dec rk prev cs)) = 16 * length cs"
proof (induction cs arbitrary: prev)
  case Nil
  then show ?case by simp
next
  case (Cons c cs)
  have "length (inv_cipher rk c) = 16" using assms Cons.prems by (simp add: length_inv_cipher)
  then have "length (xor_bytes (inv_cipher rk c) prev) = 16"
    using Cons.prems by (simp add: length_xor_bytes)
  moreover have "length (concat (cbc_dec rk c cs)) = 16 * length cs"
    using Cons.prems by (intro Cons.IH) simp_all
  ultimately show ?case by simp
qed

lemma length_flip_buffer_bit: "length (flip_buffer_bit i j bs) = length bs"
  by (simp add: flip_buffer_bit_def)

lemma flip_buffer_bit_append:
  "i < length pre \<Longrightarrow> flip_buffer_bit i j (pre @ rest) = flip_buffer_bit i j pre @ rest"
  by (simp add: flip_buffer_bit_def list_update_append1 nth_append)

lemma flip_buffer_bit_changes:
  assumes "i < length bs" "j < 8"
  shows "flip_buffer_bit i j bs \<noteq> bs"
proof
  assume "flip_buffer_bit i j bs = bs"
  then have "bs[i := (bs ! i) XOR push_bit j 1] ! i = bs ! i"
    using assms(1) by (simp add: flip_buffer_bit_def)
  then have "(bs ! i) XOR push_bit j 1 = bs ! i" using assms(1) by simp
  then have "(bs ! i) XOR ((bs ! i) XOR push_bit j 1) = (bs ! i) XOR (bs ! i)" by simp
  then have z: "push_bit j (1 :: byte) = 0" by (simp add: xor.assoc [symmetric])
  have "bit (push_bit j (1 :: byte)) j" using assms(2) by (simp add: bit_simps)
  with z assms(2) show False by simp
qed

lemma xor_bytes_nth:
  "m < length a \<Longrightarrow> m < length b \<Longrightarrow> xor_bytes a b ! m = a ! m XOR b ! m"
  by (simp add: xor_bytes_def)

lemma xor_flip_nonzero:
  assumes "j < 8"
  shows "x XOR push_bit j (1 :: byte) \<noteq> x"
proof
  assume "x XOR push_bit j (1 :: byte) = x"
  then have "x XOR (x XOR push_bit j 1) = x XOR x" by simp
  then have z: "push_bit j (1 :: byte) = 0" by (simp add: xor.assoc [symmetric])
  have "bit (push_bit j (1 :: byte)) j" using assms by (simp add: bit_simps)
  with z assms show False by simp
qed

lemma blocks_Cons16: "length c = 16 \<Longrightarrow> blocks (c @ rest) = c # blocks rest"
proof -
  assume c: "length c = 16"
  then have "c @ rest \<noteq> []" by auto
  then have "blocks (c @ rest) = take 16 (c @ rest) # blocks (drop 16 (c @ rest))"
    by (rule blocks_nonempty)
  then show ?thesis using c by simp
qed

lemma pkcs7_unpad_suffix:
  assumes z: "16 \<le> length z" and ok: "pkcs7_unpad (w @ z) = Inr d"
    and w: "length w' = length w"
  shows "pkcs7_unpad (w' @ z) = Inr (take (length d) (w' @ z))"
    and "d = take (length d) (w @ z)" and "length w \<le> length d"
    and "length d \<le> length w + length z"
proof -
  have ne: "z \<noteq> []" using z by auto
  let ?n = "unat (last z)"
  have n: "?n \<noteq> 0" "?n \<le> 16"
    using ok ne by (auto simp: pkcs7_unpad_def Let_def split: if_splits)
  have a: "list_all (\<lambda>b. b = last z) (drop (length (w @ z) - ?n) (w @ z))"
    using ok ne by (auto simp: pkcs7_unpad_def Let_def split: if_splits)
  have d: "d = take (length (w @ z) - ?n) (w @ z)"
    using ok ne by (auto simp: pkcs7_unpad_def Let_def split: if_splits)
  have "length d = min (length (w @ z) - ?n) (length (w @ z))" by (subst d) simp
  then have ld: "length d = length w + length z - ?n" by simp
  have "take (length (take k xs)) xs = take k xs" for k and xs :: buffer
    by (cases "k \<le> length xs") (simp_all add: min_def)
  then have "take (length d) (w @ z) = take (length (w @ z) - ?n) (w @ z)"
    by (subst d) blast
  then show "d = take (length d) (w @ z)" using d by (simp only:)
  show "length w \<le> length d" using ld n z by simp
  show "length d \<le> length w + length z" using ld by simp
  have "drop (length (w @ z) - ?n) (w @ z) = drop (length z - ?n) z"
    using n z by simp
  moreover have "drop (length (w' @ z) - ?n) (w' @ z) = drop (length z - ?n) z"
    using n z by simp
  ultimately have "list_all (\<lambda>b. b = last z) (drop (length (w' @ z) - ?n) (w' @ z))"
    using a by simp
  then have "pkcs7_unpad (w' @ z) = Inr (take (length (w' @ z) - ?n) (w' @ z))"
    using n ne by (simp add: pkcs7_unpad_def Let_def)
  then show "pkcs7_unpad (w' @ z) = Inr (take (length d) (w' @ z))"
    using w by (simp add: ld)
qed

lemma length_cbc_dec_blocks:
  assumes rk: "\<forall>k\<in>set rk. length k = 16" and prev: "length prev = 16"
    and bs: "length bs mod 16 = 0"
  shows "length (concat (cbc_dec rk prev (blocks bs))) = length bs"
proof -
  have b16: "\<forall>b\<in>set (blocks bs). length b = 16" using bs by (rule blocks_length16)
  have "length (concat (cbc_dec rk prev (blocks bs))) = 16 * length (blocks bs)"
    using rk prev b16 by (rule length_concat_cbc_dec)
  also have "\<dots> = length (concat (blocks bs))" using b16 by (rule length_concat16 [symmetric])
  finally show ?thesis by (simp add: concat_blocks)
qed

lemma length_last_block:
  assumes "length iv = 16" "length a mod 16 = 0"
  shows "length (last (iv # blocks a)) = 16"
proof -
  have "\<forall>b\<in>set (blocks a). length b = 16" using assms(2) by (rule blocks_length16)
  then show ?thesis using assms(1) by (cases "blocks a = []") simp_all
qed

lemma cbc_dec_three_parts:
  assumes a: "length a mod 16 = 0" and c: "length c = 16" and n: "length n = 16"
  shows "concat (cbc_dec rk iv (blocks (a @ c @ n @ rest))) =
         concat (cbc_dec rk iv (blocks a)) @
         xor_bytes (inv_cipher rk c) (last (iv # blocks a)) @
         xor_bytes (inv_cipher rk n) c @
         concat (cbc_dec rk n (blocks rest))"
proof -
  have "blocks (a @ c @ n @ rest) = blocks a @ blocks (c @ n @ rest)"
    using a by (rule blocks_append)
  also have "blocks (c @ n @ rest) = c # blocks (n @ rest)" using c by (rule blocks_Cons16)
  also have "blocks (n @ rest) = n # blocks rest" using n by (rule blocks_Cons16)
  finally have "cbc_dec rk iv (blocks (a @ c @ n @ rest)) =
      cbc_dec rk iv (blocks a) @
      [xor_bytes (inv_cipher rk c) (last (iv # blocks a)), xor_bytes (inv_cipher rk n) c] @
      cbc_dec rk n (blocks rest)"
    by (simp add: cbc_dec_append)
  then show ?thesis by simp
qed

lemma flip_buffer_bit_middle:
  "m < length c \<Longrightarrow>
   flip_buffer_bit (length a + m) j (a @ c @ t) = a @ flip_buffer_bit m j c @ t"
  by (simp add: flip_buffer_bit_def list_update_append nth_append)

lemma flip_buffer_bit_nth:
  "m < length c \<Longrightarrow> flip_buffer_bit m j c ! m = c ! m XOR push_bit j 1"
  by (simp add: flip_buffer_bit_def)

lemma split_at_block:
  fixes ct :: buffer
  assumes L: "length ct mod 16 = 0" and i: "i + 32 < length ct"
  shows "\<exists>a c n rest. ct = a @ c @ n @ rest \<and> length a = 16 * (i div 16) \<and>
           length c = 16 \<and> length n = 16 \<and> length rest mod 16 = 0 \<and> 16 \<le> length rest"
proof -
  define A where "A = 16 * (i div 16)"
  define L where "L = length ct"
  have "A \<le> i" by (simp add: A_def)
  with i have A: "32 + A < L" by (simp add: L_def)
  have "L mod 16 = 0" using assms(1) by (simp only: L_def)
  then have "16 dvd L" by (rule mod_0_imp_dvd)
  moreover have "16 dvd 32 + A" by (simp add: A_def)
  ultimately have d: "16 dvd L - (32 + A)" by (rule dvd_diff_nat)
  then have r1: "(L - (32 + A)) mod 16 = 0" by (rule dvd_imp_mod_0)
  have "0 < L - (32 + A)" using A by simp
  with d have r2: "16 \<le> L - (32 + A)" by (rule dvd_imp_le)
  define a where "a = take A ct"
  define c where "c = take 16 (drop A ct)"
  define n where "n = take 16 (drop (16 + A) ct)"
  define rest where "rest = drop (32 + A) ct"
  have "drop 16 (drop (16 + A) ct) = rest" by (simp add: rest_def)
  then have e1: "drop (16 + A) ct = n @ rest"
    unfolding n_def using append_take_drop_id [of 16 "drop (16 + A) ct"] by (simp only:)
  have "drop 16 (drop A ct) = drop (16 + A) ct" by simp
  then have e2: "drop A ct = c @ drop (16 + A) ct"
    unfolding c_def using append_take_drop_id [of 16 "drop A ct"] by (simp only:)
  have e3: "ct = a @ drop A ct" unfolding a_def by simp
  have ct: "ct = a @ c @ n @ rest" by (subst e3, subst e2, subst e1) (rule refl)
  have la: "length a = 16 * (i div 16)" using A by (simp add: a_def L_def A_def [symmetric])
  have lc: "length c = 16" using A by (simp add: c_def L_def)
  have ln: "length n = 16" using A by (simp add: n_def L_def)
  have lr: "length rest mod 16 = 0" "16 \<le> length rest"
    using r1 r2 by (simp_all add: rest_def L_def)
  from ct la lc ln lr show ?thesis
    by (intro exI [of _ a] exI [of _ c] exI [of _ n] exI [of _ rest] conjI)
qed

lemma decipher_tampered:
  assumes rk: "\<forall>k\<in>set rk. length k = 16" and iv: "length iv = 16"
    and i: "i + 32 < length (cipher_update_final rk iv data)"
  shows "\<exists>d'. decipher_update_final rk iv
                 (flip_buffer_bit i j (cipher_update_final rk iv data)) = Inr d' \<and>
              length d' = length data \<and> i + 16 < length data \<and>
              d' ! (i + 16) = data ! (i + 16) XOR push_bit j 1"
proof -
  let ?ct = "cipher_update_final rk iv data"
  define m where "m = i mod 16"
  have "length ?ct = length (pkcs7_pad data)" using rk iv by (rule length_cipher_update_final)
  then have L: "length ?ct mod 16 = 0" by (simp add: length_pkcs7_pad)
  obtain a c n rest where ct: "?ct = a @ c @ n @ rest" and la: "length a = 16 * (i div 16)"
    and lc: "length c = 16" and ln: "length n = 16" and lr: "length rest mod 16 = 0"
    and r16: "16 \<le> length rest"
    using split_at_block [OF L i] by (elim exE conjE) (rule that)
  have la': "length a mod 16 = 0" using la by simp
  have m: "m < 16" by (simp add: m_def)
  have ia: "i = length a + m" using la by (simp add: m_def)
  let ?c' = "flip_buffer_bit m j c"
  have lc': "length ?c' = 16" using lc by (simp add: length_flip_buffer_bit)
  have "flip_buffer_bit (length a + m) j (a @ c @ n @ rest) = a @ ?c' @ n @ rest"
    using lc m by (intro flip_buffer_bit_middle) simp
  then have ct': "flip_buffer_bit i j ?ct = a @ ?c' @ n @ rest"
    by (simp only: ia ct)
  define p where "p = concat (cbc_dec rk iv (blocks a))"
  define q where "q = last (iv # blocks a)"
  define s where "s = concat (cbc_dec rk n (blocks rest))"
  define g where "g = xor_bytes (inv_cipher rk c) q"
  define g' where "g' = xor_bytes (inv_cipher rk ?c') q"
  define Y where "Y = xor_bytes (inv_cipher rk n) c"
  define Y' where "Y' = xor_bytes (inv_cipher rk n) ?c'"
  have lp: "length p = length a" unfolding p_def using rk iv la' by (rule length_cbc_dec_blocks)
  have ls: "length s = length rest" unfolding s_def using rk ln lr by (rule length_cbc_dec_blocks)
  have lq: "length q = 16" unfolding q_def using iv la' by (rule length_last_block)
  have out: "concat (cbc_dec rk iv (blocks (a @ c @ n @ rest))) = p @ g @ Y @ s"
    unfolding p_def g_def q_def Y_def s_def using la' lc ln by (rule cbc_dec_three_parts)
  have out': "concat (cbc_dec rk iv (blocks (a @ ?c' @ n @ rest))) = p @ g' @ Y' @ s"
    unfolding p_def g'_def q_def Y'_def s_def using la' lc' ln by (rule cbc_dec_three_parts)
  have lD: "length (inv_cipher rk n) = 16" using rk ln by (simp add: length_inv_cipher)
  have lg: "length g = 16" "length g' = 16"
    using rk lc lc' lq by (simp_all add: g_def g'_def length_xor_bytes length_inv_cipher)
  have lY: "length Y = 16" "length Y' = 16"
    using lD lc lc' by (simp_all add: Y_def Y'_def length_xor_bytes)
  let ?w = "p @ g @ Y" and ?w' = "p @ g' @ Y'"
  have lw: "length ?w = length a + 32" "length ?w' = length ?w" using lp lg lY by simp_all
  have s16: "16 \<le> length s" using ls r16 by simp
  have ne: "?ct \<noteq> []" using i by auto
  have "decipher_update_final rk iv ?ct = Inr data"
    using rk iv by (rule decipher_cipher_update_final)
  then have "pkcs7_unpad (concat (cbc_dec rk iv (blocks ?ct))) = Inr data"
    using ne L by (simp add: decipher_update_final_def)
  then have ok: "pkcs7_unpad (?w @ s) = Inr data" using out by (simp add: ct)
  have u': "pkcs7_unpad (?w' @ s) = Inr (take (length data) (?w' @ s))"
    and d: "data = take (length data) (?w @ s)" and wd: "length ?w \<le> length data"
    and dw: "length data \<le> length ?w + length s"
    by (rule pkcs7_unpad_suffix [OF s16 ok lw(2)])+
  let ?d' = "take (length data) (?w' @ s)"
  have ld': "length ?d' = length data" using dw lw(2) by simp
  have i16: "i + 16 < length data" using wd lw(1) ia m by linarith
  have idx: "i + 16 = length p + 16 + m" using ia lp by simp
  have "?d' ! (i + 16) = (?w' @ s) ! (i + 16)" using i16 by (rule nth_take)
  also have "\<dots> = Y' ! m" using lp lg lY m by (simp add: idx nth_append)
  also have "\<dots> = inv_cipher rk n ! m XOR ?c' ! m"
    unfolding Y'_def using lD lc' m by (simp add: xor_bytes_nth)
  also have "\<dots> = inv_cipher rk n ! m XOR (c ! m XOR push_bit j 1)"
    using lc m by (simp add: flip_buffer_bit_nth)
  also have "\<dots> = Y ! m XOR push_bit j 1"
    unfolding Y_def using lD lc m by (simp add: xor_bytes_nth xor.assoc)
  also have "Y ! m = (?w @ s) ! (i + 16)" using lp lg lY m by (simp add: idx nth_append)
  also have "\<dots> = take (length data) (?w @ s) ! (i + 16)"
    using i16 by (rule nth_take [symmetric])
  also have "\<dots> = data ! (i + 16)"
    using d by (rule arg_cong [where f = "\<lambda>x. x ! (i + 16)", symmetric])
  finally have nth: "?d' ! (i + 16) = data ! (i + 16) XOR push_bit j 1" .
  have ne': "flip_buffer_bit i j ?ct \<noteq> []"
    using ne length_flip_buffer_bit [of i j ?ct] by auto
  have L': "length (flip_buffer_bit i j ?ct) mod 16 = 0"
    using L by (simp add: length_flip_buffer_bit)
  have "decipher_update_final rk iv (flip_buffer_bit i j ?ct) =
        pkcs7_unpad (concat (cbc_dec rk iv (blocks (flip_buffer_bit i j ?ct))))"
    using ne' L' by (simp add: decipher_update_final_def)
  also have "\<dots> = Inr ?d'" using u' out' by (simp add: ct')
  finally have "decipher_update_final rk iv (flip_buffer_bit i j ?ct) = Inr ?d'" .
  with ld' i16 nth show ?thesis by (intro exI [of _ ?d'] conjI)
qed

lemma flip_ciphertext_bit_encoded:
  "flip_ciphertext_bit i j (hex_encode iv @ colon # hex_encode ct) =
   hex_encode iv @ colon # hex_encode (flip_buffer_bit i j ct)"
  by (simp add: flip_ciphertext_bit_def str_split_append str_split_no_sep
      colon_notin_hex_encode hex_decode_encode)

lemma encrypt_Inr_valid_key:
  assumes "fst (encrypt env r P) = Inr enc"
  shows "valid_key env"
proof (rule ccontr)
  assume "\<not> valid_key env"
  then have "fst (encrypt env r P) = Inl InvalidKeyLength" by (rule encrypt_invalid_key)
  with assms show False by simp
qed

lemma fields_unique:
  assumes "a @ x # b = a' @ x # b'" and "x \<notin> set a'" "x \<notin> set b'"
  shows "a = a' \<and> b = b'"
proof -
  have "a' = a \<and> b' = b"
    by (rule append_Cons_eq_iff [OF assms(2,3), THEN iffD1, OF assms(1) [symmetric]])
  then show ?thesis by simp
qed

lemma encrypt_fields:
  assumes "fst (encrypt env r P) = Inr (ivh @ [colon] @ cth)"
  shows "valid_key env"
    and "ivh = hex_encode (drawn_iv r)"
    and "cth = hex_encode (cipher_update_final (module_round_keys env) (drawn_iv r)
           (utf8_encode P))"
proof -
  show v: "valid_key env" using assms by (rule encrypt_Inr_valid_key)
  let ?a = "hex_encode (drawn_iv r)"
  let ?b = "hex_encode (cipher_update_final (module_round_keys env) (drawn_iv r)
      (utf8_encode P))"
  have "ivh @ colon # cth = ?a @ colon # ?b"
    using assms encrypt_valid [OF v, of r P] by simp
  then have "ivh = ?a \<and> cth = ?b"
    by (rule fields_unique) (rule colon_notin_hex_encode)+
  then show "ivh = ?a" "cth = ?b" by simp_all
qed

lemma decrypt_upper_fields:
  assumes "colon \<notin> set a" "colon \<notin> set b"
  shows "decrypt env (toUpperCase a @ [colon] @ b) = decrypt_fields env a b"
    and "decrypt env (a @ [colon] @ toUpperCase b) = decrypt_fields env a b"
    and "decrypt env (toUpperCase a @ [colon] @ toUpperCase b) = decrypt_fields env a b"
    and "decrypt env (a @ [colon] @ b) = decrypt_fields env a b"
  using assms
  by (simp_all add: decrypt_two_fields colon_in_toUpperCase decrypt_fields_toUpperCase)
section \<open>Concrete runs\<close>

text \<open>
  Rewrite rules that evaluate the cipher on literal inputs, and the facts about the
  inputs used as examples below: the key \<open>0123456789abcdef0123456789abcdef\<close>
  (32 ASCII characters) and the entropy source that yields the bytes 0, 1, 2, \<dots>
\<close>

lemma replicate_num: "replicate (numeral k) x = x # replicate (pred_numeral k) x"
  by (simp add: numeral_eq_Suc)

lemmas aes_eval =
  key_expansion_def next_word_def rot_word_def rcon_def xor_bytes_def sub_byte_def
  sbox_table_def cipher_def enc_round_def final_round_def add_round_key_def sub_bytes_def
  xtime_def mul3_def upt_rec replicate_num

lemmas encrypt_eval =
  encrypt_def randomBytes_def key_buffer_def ENCRYPTION_KEY_def js_def utf8_encode_def
  createCipheriv_def cipher_update_final_def pkcs7_pad_def blocks.simps hex_encode_def
  hex_digit_def is_high_surrogate_def is_low_surrogate_def

text \<open>The known answer of FIPS-197, Appendix C.3 (AES-256).\<close>

lemma fips197_c3_cipher:
  "cipher (round_keys (key_expansion
      [0x00, 0x01, 0x02, 0x03, 0x04, 0x05, 0x06, 0x07, 0x08, 0x09, 0x0a, 0x0b, 0x0c, 0x0d,
       0x0e, 0x0f, 0x10, 0x11, 0x12, 0x13, 0x14, 0x15, 0x16, 0x17, 0x18, 0x19, 0x1a, 0x1b,
       0x1c, 0x1d, 0x1e, 0x1f]))
     [0x00, 0x11, 0x22, 0x33, 0x44, 0x55, 0x66, 0x77, 0x88, 0x99, 0xaa, 0xbb, 0xcc, 0xdd,
      0xee, 0xff] =
   [0x8e, 0xa2, 0xb7, 0xca, 0x51, 0x67, 0x45, 0xbf, 0xea, 0xfc, 0x49, 0x90, 0x4b, 0x49,
    0x60, 0x89]"
  by (simp add: aes_eval)

lemma valid_demo_key: "valid_key (Some (js ''0123456789abcdef0123456789abcdef''))"
  by (simp add: valid_key_def key_buffer_def ENCRYPTION_KEY_def js_def utf8_encode_def)

lemma fallback_key_length: "length (key_buffer None) = 30"
  by (simp add: key_buffer_def ENCRYPTION_KEY_def fallback_key_def js_def utf8_encode_def)

lemma fallback_key_invalid: "\<not> valid_key None"
  by (simp add: valid_key_def fallback_key_length)

lemma well_formed_demo: "well_formed [0x68, 0xE9, 0x20AC, 0xD83D, 0xDE00]"
  by (simp add: well_formed_def is_high_surrogate_def is_low_surrogate_def)

lemma lone_surrogate_replaced: "utf8_decode (utf8_encode [0xD800]) = [0xFFFD]"
  by (simp add: utf8_decode_def utf8_encode_def is_high_surrogate_def is_low_surrogate_def
      is_cont_def lower3_def upper3_def)

lemma encrypt_lone_surrogate:
  "fst (encrypt (Some (js ''0123456789abcdef0123456789abcdef'')) of_nat [0xD800]) =
   Inr (js ''000102030405060708090a0b0c0d0e0f:9ac35279bfa194fcbb594d6ac89d2b42'')"
  by (simp add: aes_eval encrypt_eval)

lemma encrypt_hello:
  "fst (encrypt (Some (js ''0123456789abcdef0123456789abcdef'')) of_nat (js ''hello world'')) =
   Inr (js ''000102030405060708090a0b0c0d0e0f:a1314678ca91c2309c8fccff169998e6'')"
  by (simp add: aes_eval encrypt_eval)

lemma demo_iv_hex: "hex_encode (drawn_iv of_nat) = js ''000102030405060708090a0b0c0d0e0f''"
  by (simp add: drawn_iv_def randomBytes_def hex_encode_def hex_digit_def js_def upt_rec)

lemma hello_ciphertext_hex:
  "hex_encode (cipher_update_final
      (module_round_keys (Some (js ''0123456789abcdef0123456789abcdef'')))
      (drawn_iv of_nat) (utf8_encode (js ''hello world''))) =
   js ''a1314678ca91c2309c8fccff169998e6''"
proof -
  let ?K = "Some (js ''0123456789abcdef0123456789abcdef'')"
  let ?ct = "hex_encode (cipher_update_final (module_round_keys ?K) (drawn_iv of_nat)
      (utf8_encode (js ''hello world'')))"
  have "js ''000102030405060708090a0b0c0d0e0f'' @ colon # ?ct =
        js ''000102030405060708090a0b0c0d0e0f:a1314678ca91c2309c8fccff169998e6''"
    using encrypt_valid [OF valid_demo_key, of of_nat "js ''hello world''"]
    by (simp add: encrypt_hello demo_iv_hex)
  moreover have "js ''000102030405060708090a0b0c0d0e0f:a1314678ca91c2309c8fccff169998e6'' =
      js ''000102030405060708090a0b0c0d0e0f'' @ colon # js ''a1314678ca91c2309c8fccff169998e6''"
    by (simp add: js_def colon_def)
  ultimately show ?thesis by simp
qed

lemma well_formed_hello: "well_formed (js ''hello world'')"
  by (simp add: well_formed_def js_def is_high_surrogate_def is_low_surrogate_def)

lemma decrypt_fields_hello:
  assumes "hex_decode junk = []"
  shows "decrypt_fields (Some (js ''0123456789abcdef0123456789abcdef''))
           (js ''000102030405060708090a0b0c0d0e0f'')
           (js ''a1314678ca91c2309c8fccff169998e6'' @ junk) = Inr (js ''hello world'')"
proof -
  have "decrypt_fields (Some (js ''0123456789abcdef0123456789abcdef''))
          (hex_encode (drawn_iv of_nat))
          (hex_encode (cipher_update_final
             (module_round_keys (Some (js ''0123456789abcdef0123456789abcdef'')))
             (drawn_iv of_nat) (utf8_encode (js ''hello world''))) @ junk) =
        Inr (utf8_decode (utf8_encode (js ''hello world'')))"
    using valid_demo_key length_drawn_iv assms by (rule decrypt_fields_junk)
  then show ?thesis
    by (simp only: demo_iv_hex hello_ciphertext_hex utf8_decode_encode [OF well_formed_hello])
qed

lemmas inv_aes_eval =
  key_expansion_def next_word_def rot_word_def rcon_def xor_bytes_def sub_byte_def
  sbox_table_def inv_cipher_def inv_round_def inv_final_round_def add_round_key_def
  inv_sub_bytes_def inv_sub_byte_def inv_sbox_table_def xtime_def mul9_def mul11_def
  mul13_def mul14_def upt_rec

lemmas decrypt_eval =
  decrypt_def colon_def key_buffer_def ENCRYPTION_KEY_def js_def utf8_encode_def unhex_def
  createDecipheriv_def createCipheriv_def decipher_update_final_def pkcs7_unpad_def
  blocks.simps utf8_decode_def is_cont_def lower3_def upper3_def lower4_def upper4_def
  is_high_surrogate_def is_low_surrogate_def

text \<open>The same known answer for the inverse cipher.\<close>

lemma fips197_c3_inv_cipher:
  "inv_cipher (round_keys (key_expansion
      [0x00, 0x01, 0x02, 0x03, 0x04, 0x05, 0x06, 0x07, 0x08, 0x09, 0x0a, 0x0b, 0x0c, 0x0d,
       0x0e, 0x0f, 0x10, 0x11, 0x12, 0x13, 0x14, 0x15, 0x16, 0x17, 0x18, 0x19, 0x1a, 0x1b,
       0x1c, 0x1d, 0x1e, 0x1f]))
     [0x8e, 0xa2, 0xb7, 0xca, 0x51, 0x67, 0x45, 0xbf, 0xea, 0xfc, 0x49, 0x90, 0x4b, 0x49,
      0x60, 0x89] =
   [0x00, 0x11, 0x22, 0x33, 0x44, 0x55, 0x66, 0x77, 0x88, 0x99, 0xaa, 0xbb, 0xcc, 0xdd,
    0xee, 0xff]"
  by (simp add: inv_aes_eval)

lemma decrypt_hello_wrong_key:
  "decrypt (Some (js ''0123456789abcdef0123456789abcdaa''))
     (js ''000102030405060708090a0b0c0d0e0f:a1314678ca91c2309c8fccff169998e6'') =
   Inr [0xB8B5, 0xFFFD, 0xFFFD, 0x0A, 0xFFFD, 0xFFFD, 0x20, 0xFFFD, 0x16, 0x59, 0xFFFD, 0x6F,
        0xFFFD]"
  by (simp add: inv_aes_eval decrypt_eval)

lemma valid_other_key: "valid_key (Some (js ''0123456789abcdef0123456789abcdaa''))"
  by (simp add: valid_key_def key_buffer_def ENCRYPTION_KEY_def js_def utf8_encode_def)

lemma encrypt_wire:
  "fst (encrypt (Some (js ''0123456789abcdef0123456789abcdef'')) of_nat
          (js ''wire transfer : 1000 EUR to Bob.'')) =
   Inr (js ''000102030405060708090a0b0c0d0e0f:e269d18294c8f80c8a1091fe60de7f247371f645d844779aeeb4d44d3025da40e08d9ef03bb41dd59744c023cd6c7ade'')"
  by (simp add: aes_eval encrypt_eval)

lemma flip_wire:
  "flip_ciphertext_bit 0 0
     (js ''000102030405060708090a0b0c0d0e0f:e269d18294c8f80c8a1091fe60de7f247371f645d844779aeeb4d44d3025da40e08d9ef03bb41dd59744c023cd6c7ade'') =
   js ''000102030405060708090a0b0c0d0e0f:e369d18294c8f80c8a1091fe60de7f247371f645d844779aeeb4d44d3025da40e08d9ef03bb41dd59744c023cd6c7ade''"
  by (simp add: flip_ciphertext_bit_def flip_buffer_bit_def js_def colon_def unhex_def hex_encode_def
      hex_digit_def)

lemma decrypt_wire_tampered:
  "decrypt (Some (js ''0123456789abcdef0123456789abcdef''))
     (js ''000102030405060708090a0b0c0d0e0f:e369d18294c8f80c8a1091fe60de7f247371f645d844779aeeb4d44d3025da40e08d9ef03bb41dd59744c023cd6c7ade'') =
   Inr ([0xFFFD, 0x40, 0x58, 0x13, 0x4E, 0xFFFD, 0x50, 0xFFFD, 0x161, 0xFFFD, 0x55, 0xFFFD,
         0x117, 0x70] @ js ''0000 EUR to Bob.'')"
  by (simp add: inv_aes_eval decrypt_eval)
section \<open>The properties\<close>

subsection \<open>C1: round trip\<close>

text \<open>
  C1, as the code has it: with a valid 32-byte key, for every plaintext string without
  unpaired surrogates (the empty string and multibyte text included), \<open>encrypt\<close>
  returns an encoded value and \<open>decrypt\<close> of that value returns exactly the plaintext.
\<close>

theorem C1_round_trip:
  assumes "valid_key env" "well_formed P"
  shows "\<exists>enc. fst (encrypt env r P) = Inr enc \<and> decrypt env enc = Inr P"
  using decrypt_encrypt_bytes [OF assms(1), of r P] utf8_decode_encode [OF assms(2)] by simp

theorem C1_round_trip_witness:
  "valid_key (Some (js ''0123456789abcdef0123456789abcdef'')) \<and>
   well_formed [0x68, 0xE9, 0x20AC, 0xD83D, 0xDE00] \<and>
   (\<exists>enc. fst (encrypt (Some (js ''0123456789abcdef0123456789abcdef'')) of_nat
                [0x68, 0xE9, 0x20AC, 0xD83D, 0xDE00]) = Inr enc \<and>
          decrypt (Some (js ''0123456789abcdef0123456789abcdef'')) enc =
            Inr [0x68, 0xE9, 0x20AC, 0xD83D, 0xDE00])"
  using C1_round_trip [OF valid_demo_key well_formed_demo] valid_demo_key well_formed_demo
  by blast

text \<open>
  C1 as stated, for every string, fails on an unpaired surrogate: the one-unit string
  U+D800 is encrypted as the bytes EF BF BD, and \<open>decrypt\<close> returns U+FFFD.
\<close>

theorem C1_lone_surrogate_counterexample:
  "fst (encrypt (Some (js ''0123456789abcdef0123456789abcdef'')) of_nat [0xD800]) =
     Inr (js ''000102030405060708090a0b0c0d0e0f:9ac35279bfa194fcbb594d6ac89d2b42'') \<and>
   decrypt (Some (js ''0123456789abcdef0123456789abcdef''))
     (js ''000102030405060708090a0b0c0d0e0f:9ac35279bfa194fcbb594d6ac89d2b42'') =
     Inr [0xFFFD] \<and>
   [0xFFFD] \<noteq> [0xD800 :: 16 word]"
proof -
  let ?K = "Some (js ''0123456789abcdef0123456789abcdef'')"
  obtain enc where "fst (encrypt ?K of_nat [0xD800]) = Inr enc"
    and "decrypt ?K enc = Inr (utf8_decode (utf8_encode [0xD800]))"
    using decrypt_encrypt_bytes [OF valid_demo_key] by blast
  then show ?thesis
    by (simp add: encrypt_lone_surrogate lone_surrogate_replaced)
qed

subsection \<open>C2: the fallback key\<close>

text \<open>
  C2, as the code has it: when the environment value is absent (or the empty string),
  the module loads without an error and \<open>encrypt\<close> and \<open>decrypt\<close> work with the
  literal fallback key, exactly as if the environment had supplied that literal.
\<close>

theorem C2_fallback_substituted:
  assumes "env = None \<or> env = Some []"
  shows "ENCRYPTION_KEY env = js ''your-secret-key-32-chars-long!'' \<and>
         encrypt env r P = encrypt (Some (js ''your-secret-key-32-chars-long!'')) r P \<and>
         decrypt env text = decrypt (Some (js ''your-secret-key-32-chars-long!'')) text"
proof -
  have "ENCRYPTION_KEY env = js ''your-secret-key-32-chars-long!''"
    using assms by (auto simp: ENCRYPTION_KEY_def fallback_key_def)
  moreover have "ENCRYPTION_KEY (Some (js ''your-secret-key-32-chars-long!'')) =
      js ''your-secret-key-32-chars-long!''"
    by (simp add: ENCRYPTION_KEY_def js_def)
  ultimately have "key_buffer env = key_buffer (Some (js ''your-secret-key-32-chars-long!''))"
    by (simp only: key_buffer_def)
  then show ?thesis
    using \<open>ENCRYPTION_KEY env = js ''your-secret-key-32-chars-long!''\<close>
    by (simp only: encrypt_def decrypt_def)
qed

theorem C2_fallback_substituted_witness:
  "(None = None \<or> None = Some []) \<and>
   ENCRYPTION_KEY None = js ''your-secret-key-32-chars-long!'' \<and>
   encrypt None of_nat (js ''hello world'') =
     encrypt (Some (js ''your-secret-key-32-chars-long!'')) of_nat (js ''hello world'') \<and>
   decrypt None (js ''00:00'') =
     decrypt (Some (js ''your-secret-key-32-chars-long!'')) (js ''00:00'')"
  using C2_fallback_substituted [of None of_nat "js ''hello world''" "js ''00:00''"] by simp

text \<open>
  C2 as stated fails: with the environment value absent, the key the module holds is
  the hardcoded literal.
\<close>

theorem C2_fallback_counterexample:
  "ENCRYPTION_KEY None = js ''your-secret-key-32-chars-long!''"
  by (simp add: ENCRYPTION_KEY_def fallback_key_def)

subsection \<open>C3: flipping a ciphertext bit\<close>

text \<open>
  C3, as the code has it: \<open>decrypt\<close> validates only the padding at the end of the
  deciphered data, which depends on the last two ciphertext blocks alone. For every
  encoded value produced by \<open>encrypt\<close>, flipping a single bit of any ciphertext byte
  in a block before the last two yields a different encoded value on which \<open>decrypt\<close>
  does not fail: it returns the decoding of bytes \<open>d'\<close> that are as many as the bytes
  of the plaintext, differ from them, and have exactly the flipped bit changed in the
  byte 16 places after the flipped one. When the plaintext holds no U+FFFD, the text
  returned is not the plaintext.
\<close>

theorem C3_early_block_tampering:
  assumes "fst (encrypt env r P) = Inr enc"
    and "i + 32 < length (pkcs7_pad (utf8_encode P))" "j < 8"
  shows "flip_ciphertext_bit i j enc \<noteq> enc \<and>
         (\<exists>d'. decrypt env (flip_ciphertext_bit i j enc) = Inr (utf8_decode d') \<and>
               length d' = length (utf8_encode P) \<and>
               i + 16 < length (utf8_encode P) \<and>
               d' ! (i + 16) = utf8_encode P ! (i + 16) XOR push_bit j 1 \<and>
               d' \<noteq> utf8_encode P \<and>
               (0xFFFD \<notin> set P \<longrightarrow> utf8_decode d' \<noteq> P))"
proof -
  let ?rk = "module_round_keys env"
  let ?iv = "drawn_iv r"
  let ?data = "utf8_encode P"
  let ?ct = "cipher_update_final ?rk ?iv ?data"
  have v: "valid_key env" using assms(1) by (rule encrypt_Inr_valid_key)
  have rk: "\<forall>k\<in>set ?rk. length k = 16" using v by (rule module_round_keys_length)
  have enc: "enc = hex_encode ?iv @ colon # hex_encode ?ct"
    using assms(1) encrypt_valid [OF v, of r P] by simp
  have "length ?ct = length (pkcs7_pad ?data)"
    using rk length_drawn_iv by (rule length_cipher_update_final)
  with assms(2) have i: "i + 32 < length ?ct" by simp
  have f: "flip_ciphertext_bit i j enc =
      hex_encode ?iv @ colon # hex_encode (flip_buffer_bit i j ?ct)"
    unfolding enc by (rule flip_ciphertext_bit_encoded)
  have "flip_buffer_bit i j ?ct \<noteq> ?ct"
    using i assms(3) by (intro flip_buffer_bit_changes) simp_all
  then have "hex_encode (flip_buffer_bit i j ?ct) \<noteq> hex_encode ?ct"
    using hex_encode_inject by blast
  then have ne: "flip_ciphertext_bit i j enc \<noteq> enc" unfolding f unfolding enc by simp
  obtain d' where d: "decipher_update_final ?rk ?iv (flip_buffer_bit i j ?ct) = Inr d'"
    and len: "length d' = length ?data" and il: "i + 16 < length ?data"
    and nth: "d' ! (i + 16) = ?data ! (i + 16) XOR push_bit j 1"
    using decipher_tampered [OF rk length_drawn_iv i, of j] by (elim exE conjE)
  have "decrypt_fields env (hex_encode ?iv) (hex_encode (flip_buffer_bit i j ?ct)) =
      Inr (utf8_decode d')"
    using v d by (simp add: decrypt_fields_valid hex_decode_encode length_drawn_iv)
  then have dec: "decrypt env (flip_ciphertext_bit i j enc) = Inr (utf8_decode d')"
    unfolding f by (simp add: decrypt_two_fields colon_notin_hex_encode)
  have "?data ! (i + 16) XOR push_bit j 1 \<noteq> ?data ! (i + 16)"
    using assms(3) by (rule xor_flip_nonzero)
  with nth have dne: "d' \<noteq> ?data" by auto
  have alt: "utf8_decode d' \<noteq> P" if "0xFFFD \<notin> set P"
  proof
    assume "utf8_decode d' = P"
    then have "utf8_encode P = d'" using that by (rule utf8_decode_inject)
    with dne show False by simp
  qed
  from ne dec len il nth dne alt show ?thesis
    by (intro conjI exI [of _ d'] impI)
qed

theorem C3_early_block_tampering_witness:
  "fst (encrypt (Some (js ''0123456789abcdef0123456789abcdef'')) of_nat
          (js ''wire transfer : 1000 EUR to Bob.'')) =
     Inr (js ''000102030405060708090a0b0c0d0e0f:e269d18294c8f80c8a1091fe60de7f247371f645d844779aeeb4d44d3025da40e08d9ef03bb41dd59744c023cd6c7ade'') \<and>
   15 + 32 < length (pkcs7_pad (utf8_encode (js ''wire transfer : 1000 EUR to Bob.''))) \<and>
   0xFFFD \<notin> set (js ''wire transfer : 1000 EUR to Bob.'') \<and>
   flip_ciphertext_bit 15 7
     (js ''000102030405060708090a0b0c0d0e0f:e269d18294c8f80c8a1091fe60de7f247371f645d844779aeeb4d44d3025da40e08d9ef03bb41dd59744c023cd6c7ade'') \<noteq>
     js ''000102030405060708090a0b0c0d0e0f:e269d18294c8f80c8a1091fe60de7f247371f645d844779aeeb4d44d3025da40e08d9ef03bb41dd59744c023cd6c7ade'' \<and>
   (\<exists>d'. decrypt (Some (js ''0123456789abcdef0123456789abcdef''))
          (flip_ciphertext_bit 15 7
             (js ''000102030405060708090a0b0c0d0e0f:e269d18294c8f80c8a1091fe60de7f247371f645d844779aeeb4d44d3025da40e08d9ef03bb41dd59744c023cd6c7ade'')) =
        Inr (utf8_decode d') \<and>
        length d' = length (utf8_encode (js ''wire transfer : 1000 EUR to Bob.'')) \<and>
        d' ! (15 + 16) =
          utf8_encode (js ''wire transfer : 1000 EUR to Bob.'') ! (15 + 16) XOR push_bit 7 1 \<and>
        d' \<noteq> utf8_encode (js ''wire transfer : 1000 EUR to Bob.'') \<and>
        utf8_decode d' \<noteq> js ''wire transfer : 1000 EUR to Bob.'')"
proof -
  let ?K = "Some (js ''0123456789abcdef0123456789abcdef'')"
  let ?P = "js ''wire transfer : 1000 EUR to Bob.''"
  let ?enc = "js ''000102030405060708090a0b0c0d0e0f:e269d18294c8f80c8a1091fe60de7f247371f645d844779aeeb4d44d3025da40e08d9ef03bb41dd59744c023cd6c7ade''"
  have "length (utf8_encode ?P) = 32" by (simp add: utf8_encode_def js_def)
  then have l: "15 + 32 < length (pkcs7_pad (utf8_encode ?P))"
    by (simp add: pkcs7_pad_def Let_def)
  have n: "0xFFFD \<notin> set ?P" by (simp add: js_def)
  have z: "(7 :: nat) < 8" by simp
  have t: "flip_ciphertext_bit 15 7 ?enc \<noteq> ?enc \<and>
      (\<exists>d'. decrypt ?K (flip_ciphertext_bit 15 7 ?enc) = Inr (utf8_decode d') \<and>
            length d' = length (utf8_encode ?P) \<and>
            15 + 16 < length (utf8_encode ?P) \<and>
            d' ! (15 + 16) = utf8_encode ?P ! (15 + 16) XOR push_bit 7 1 \<and>
            d' \<noteq> utf8_encode ?P \<and>
            (0xFFFD \<notin> set ?P \<longrightarrow> utf8_decode d' \<noteq> ?P))"
    by (rule C3_early_block_tampering [OF encrypt_wire l z])
  then obtain d' where d: "decrypt ?K (flip_ciphertext_bit 15 7 ?enc) = Inr (utf8_decode d')"
    "length d' = length (utf8_encode ?P)"
    "d' ! (15 + 16) = utf8_encode ?P ! (15 + 16) XOR push_bit 7 1"
    "d' \<noteq> utf8_encode ?P" "0xFFFD \<notin> set ?P \<longrightarrow> utf8_decode d' \<noteq> ?P"
    by (elim exE conjE)
  from d(5) n have a: "utf8_decode d' \<noteq> ?P" by (rule mp)
  from t have ne: "flip_ciphertext_bit 15 7 ?enc \<noteq> ?enc" by (rule conjunct1)
  from encrypt_wire l n ne d(1-4) a show ?thesis
    by (intro conjI exI [of _ d'])
qed

text \<open>
  C3 as stated, that any single flipped ciphertext bit makes \<open>decrypt\<close> fail, is
  false for the 32-character plaintext \<open>wire transfer : 1000 EUR to Bob.\<close>: flipping
  the lowest bit of the first ciphertext byte turns the first block into garbage and
  the amount into \<open>0000\<close>, and \<open>decrypt\<close> returns that text.
\<close>

theorem C3_undetected_bit_flip_counterexample:
  "fst (encrypt (Some (js ''0123456789abcdef0123456789abcdef'')) of_nat
          (js ''wire transfer : 1000 EUR to Bob.'')) =
     Inr (js ''000102030405060708090a0b0c0d0e0f:e269d18294c8f80c8a1091fe60de7f247371f645d844779aeeb4d44d3025da40e08d9ef03bb41dd59744c023cd6c7ade'') \<and>
   flip_ciphertext_bit 0 0
     (js ''000102030405060708090a0b0c0d0e0f:e269d18294c8f80c8a1091fe60de7f247371f645d844779aeeb4d44d3025da40e08d9ef03bb41dd59744c023cd6c7ade'') =
     js ''000102030405060708090a0b0c0d0e0f:e369d18294c8f80c8a1091fe60de7f247371f645d844779aeeb4d44d3025da40e08d9ef03bb41dd59744c023cd6c7ade'' \<and>
   decrypt (Some (js ''0123456789abcdef0123456789abcdef''))
     (js ''000102030405060708090a0b0c0d0e0f:e369d18294c8f80c8a1091fe60de7f247371f645d844779aeeb4d44d3025da40e08d9ef03bb41dd59744c023cd6c7ade'') =
     Inr ([0xFFFD, 0x40, 0x58, 0x13, 0x4E, 0xFFFD, 0x50, 0xFFFD, 0x161, 0xFFFD, 0x55, 0xFFFD,
           0x117, 0x70] @ js ''0000 EUR to Bob.'')"
  using encrypt_wire flip_wire decrypt_wire_tampered by blast

subsection \<open>C4: malformed input\<close>

text \<open>
  C4, as the code has it: \<open>decrypt\<close> of a text without a delimiter (for example
  \<open>not-a-valid-format\<close>) fails with the TypeError of \<open>Buffer.from(undefined, 'hex')\<close>;
  \<open>decrypt("zz:zz")\<close> fails with the invalid-IV error, because the IV field decodes
  to no bytes; there is no dedicated malformed-input error. A field is read up to its
  first pair that is not two hexadecimal digits (a code unit counting as the digit its
  low 8 bits spell): a ciphertext field of valid digits followed by such a pair is
  decrypted like the valid digits alone, so an output of \<open>encrypt\<close> followed by such
  a pair and anything without a delimiter decrypts to the text that the output alone
  decrypts to.
\<close>

theorem C4_malformed_input:
  "(colon \<notin> set text \<longrightarrow> decrypt env text = Inl TypeError) \<and>
   decrypt env (js ''not-a-valid-format'') = Inl TypeError \<and>
   decrypt env (js ''zz:zz'') = Inl InvalidIV \<and>
   ((unhex z1 = None \<or> unhex z2 = None) \<and> colon \<notin> set ivh \<and>
    colon \<notin> set (z1 # z2 # more) \<longrightarrow>
    decrypt env (ivh @ [colon] @ hex_encode ct @ z1 # z2 # more) =
      decrypt env (ivh @ [colon] @ hex_encode ct)) \<and>
   (fst (encrypt env r P) = Inr enc \<and> (unhex z1 = None \<or> unhex z2 = None) \<and>
    colon \<notin> set (z1 # z2 # more) \<longrightarrow>
    decrypt env (enc @ z1 # z2 # more) = Inr (utf8_decode (utf8_encode P)))"
proof -
  have a: "decrypt env (js ''not-a-valid-format'') = Inl TypeError"
    by (rule decrypt_no_colon) (simp add: js_def colon_def)
  have b: "decrypt env (js ''zz:zz'') = Inl InvalidIV"
    by (simp add: decrypt_def js_def colon_def unhex_def createDecipheriv_def
        createCipheriv_def)
  have j: "hex_decode (hex_encode bs @ z1 # z2 # more) = bs"
    if "unhex z1 = None \<or> unhex z2 = None" for bs
  proof -
    have "hex_decode (z1 # z2 # more) = []" using that by (auto split: option.splits)
    then show ?thesis by (simp add: hex_decode_encode_append)
  qed
  have c: "decrypt env (ivh @ [colon] @ hex_encode ct @ z1 # z2 # more) =
      decrypt env (ivh @ [colon] @ hex_encode ct)"
    if z: "unhex z1 = None \<or> unhex z2 = None" and i: "colon \<notin> set ivh"
      and m: "colon \<notin> set (z1 # z2 # more)"
  proof -
    have "decrypt_fields env ivh (hex_encode ct @ z1 # z2 # more) =
        decrypt_fields env ivh (hex_encode ct)"
      by (simp only: decrypt_fields_def j [OF z] hex_decode_encode)
    moreover have "colon \<notin> set (hex_encode ct @ z1 # z2 # more)"
      using m colon_notin_hex_encode [of ct] by simp
    ultimately show ?thesis
      using i colon_notin_hex_encode [of ct] by (simp add: decrypt_two_fields)
  qed
  have d: "decrypt env (enc @ z1 # z2 # more) = Inr (utf8_decode (utf8_encode P))"
    if e: "fst (encrypt env r P) = Inr enc" and z: "unhex z1 = None \<or> unhex z2 = None"
      and m: "colon \<notin> set (z1 # z2 # more)"
  proof -
    let ?iv = "drawn_iv r"
    let ?ct = "cipher_update_final (module_round_keys env) ?iv (utf8_encode P)"
    have v: "valid_key env" using e by (rule encrypt_Inr_valid_key)
    have enc: "enc = hex_encode ?iv @ colon # hex_encode ?ct"
      using e encrypt_valid [OF v, of r P] by simp
    have n: "colon \<notin> set (hex_encode ?ct @ z1 # z2 # more)"
      using m colon_notin_hex_encode [of ?ct] by simp
    have "decrypt env (hex_encode ?iv @ colon # (hex_encode ?ct @ z1 # z2 # more)) =
        decrypt_fields env (hex_encode ?iv) (hex_encode ?ct @ z1 # z2 # more)"
      using colon_notin_hex_encode n by (rule decrypt_two_fields)
    also have "\<dots> = decrypt_fields env (hex_encode ?iv) (hex_encode ?ct)"
      by (simp only: decrypt_fields_def j [OF z] hex_decode_encode)
    also have "\<dots> = Inr (utf8_decode (utf8_encode P))"
      using v length_drawn_iv by (rule decrypt_fields_encrypted)
    finally show ?thesis unfolding enc by simp
  qed
  show ?thesis using a b c d by (simp add: decrypt_no_colon)
qed

theorem C4_malformed_input_witness:
  "colon \<notin> set (js ''not-a-valid-format'') \<and>
   decrypt (Some (js ''0123456789abcdef0123456789abcdef'')) (js ''not-a-valid-format'') =
     Inl TypeError \<and>
   decrypt (Some (js ''0123456789abcdef0123456789abcdef'')) (js ''zz:zz'') = Inl InvalidIV \<and>
   unhex (of_char CHR ''g'') = None \<and>
   colon \<notin> set (js ''000102030405060708090a0b0c0d0e0f'') \<and>
   colon \<notin> set (js ''g0ff'') \<and>
   decrypt (Some (js ''0123456789abcdef0123456789abcdef''))
     (js ''000102030405060708090a0b0c0d0e0f'' @ [colon] @
      hex_encode [0xa1, 0x31, 0x46, 0x78, 0xca, 0x91, 0xc2, 0x30, 0x9c, 0x8f, 0xcc, 0xff,
                  0x16, 0x99, 0x98, 0xe6] @ js ''g0ff'') =
   decrypt (Some (js ''0123456789abcdef0123456789abcdef''))
     (js ''000102030405060708090a0b0c0d0e0f'' @ [colon] @
      hex_encode [0xa1, 0x31, 0x46, 0x78, 0xca, 0x91, 0xc2, 0x30, 0x9c, 0x8f, 0xcc, 0xff,
                  0x16, 0x99, 0x98, 0xe6]) \<and>
   fst (encrypt (Some (js ''0123456789abcdef0123456789abcdef'')) of_nat (js ''hello world'')) =
     Inr (js ''000102030405060708090a0b0c0d0e0f:a1314678ca91c2309c8fccff169998e6'') \<and>
   decrypt (Some (js ''0123456789abcdef0123456789abcdef''))
     (js ''000102030405060708090a0b0c0d0e0f:a1314678ca91c2309c8fccff169998e6'' @ js ''g0ff'') =
     Inr (js ''hello world'')"
proof -
  let ?K = "Some (js ''0123456789abcdef0123456789abcdef'')"
  let ?ct = "[0xa1, 0x31, 0x46, 0x78, 0xca, 0x91, 0xc2, 0x30, 0x9c, 0x8f, 0xcc, 0xff,
      0x16, 0x99, 0x98, 0xe6] :: buffer"
  have n: "colon \<notin> set (js ''not-a-valid-format'')" by (simp add: js_def colon_def)
  have z: "unhex (of_char CHR ''g'') = None" by (simp add: unhex_def)
  have i: "colon \<notin> set (js ''000102030405060708090a0b0c0d0e0f'')"
    by (simp add: js_def colon_def)
  have g: "js ''g0ff'' = [of_char CHR ''g'', of_char CHR ''0'', of_char CHR ''f'', of_char CHR ''f'']"
    by (simp add: js_def)
  have m: "colon \<notin> set (js ''g0ff'')" by (simp add: js_def colon_def)
  have w: "utf8_decode (utf8_encode (js ''hello world'')) = js ''hello world''"
    using well_formed_hello by (rule utf8_decode_encode)
  note t = C4_malformed_input [of "js ''not-a-valid-format''" ?K "of_char CHR ''g''"
      "of_char CHR ''0''" "js ''000102030405060708090a0b0c0d0e0f''"
      "[of_char CHR ''f'', of_char CHR ''f'']" ?ct of_nat "js ''hello world''"
      "js ''000102030405060708090a0b0c0d0e0f:a1314678ca91c2309c8fccff169998e6''"]
  from t n have t1: "decrypt ?K (js ''not-a-valid-format'') = Inl TypeError" by blast
  from t have t2: "decrypt ?K (js ''zz:zz'') = Inl InvalidIV" by blast
  have t3: "decrypt ?K (js ''000102030405060708090a0b0c0d0e0f'' @ [colon] @ hex_encode ?ct @
        js ''g0ff'') =
      decrypt ?K (js ''000102030405060708090a0b0c0d0e0f'' @ [colon] @ hex_encode ?ct)"
    using t z i m unfolding g by blast
  have t4: "decrypt ?K
      (js ''000102030405060708090a0b0c0d0e0f:a1314678ca91c2309c8fccff169998e6'' @ js ''g0ff'') =
      Inr (js ''hello world'')"
    using t z m encrypt_hello unfolding g w by blast
  from n t1 t2 z i m t3 t4 encrypt_hello show ?thesis by (intro conjI)
qed

text \<open>
  C4 as stated, that a field which is not valid hexadecimal makes \<open>decrypt\<close> fail
  and nothing partially decoded is returned, fails on an output of \<open>encrypt\<close> with
  \<open>zz\<close> appended: the ciphertext field is decoded up to the \<open>zz\<close> and the plaintext
  is returned.
\<close>

theorem C4_trailing_garbage_counterexample:
  "fst (encrypt (Some (js ''0123456789abcdef0123456789abcdef'')) of_nat (js ''hello world'')) =
     Inr (js ''000102030405060708090a0b0c0d0e0f:a1314678ca91c2309c8fccff169998e6'') \<and>
   unhex (of_char CHR ''z'') = None \<and>
   decrypt (Some (js ''0123456789abcdef0123456789abcdef''))
     (js ''000102030405060708090a0b0c0d0e0f:a1314678ca91c2309c8fccff169998e6zz'') =
     Inr (js ''hello world'')"
proof -
  let ?K = "Some (js ''0123456789abcdef0123456789abcdef'')"
  have s: "js ''000102030405060708090a0b0c0d0e0f:a1314678ca91c2309c8fccff169998e6zz'' =
      js ''000102030405060708090a0b0c0d0e0f'' @ colon #
      (js ''a1314678ca91c2309c8fccff169998e6'' @ js ''zz'')"
    by (simp add: js_def colon_def)
  have c: "colon \<notin> set (js ''000102030405060708090a0b0c0d0e0f'')"
    "colon \<notin> set (js ''a1314678ca91c2309c8fccff169998e6'' @ js ''zz'')"
    by (simp_all add: js_def colon_def)
  have j: "hex_decode (js ''zz'') = []" by (simp add: js_def unhex_def)
  have "decrypt ?K (js ''000102030405060708090a0b0c0d0e0f'' @ colon #
      (js ''a1314678ca91c2309c8fccff169998e6'' @ js ''zz'')) = Inr (js ''hello world'')"
    by (simp only: decrypt_two_fields [OF c] decrypt_fields_hello [OF j])
  moreover have "unhex (of_char CHR ''z'') = None" by (simp add: unhex_def)
  ultimately show ?thesis by (simp only: s encrypt_hello)
qed

subsection \<open>C5: the number of fields\<close>

text \<open>
  C5, as the code has it: a text without a delimiter (fewer than two fields) makes
  \<open>decrypt\<close> fail; a text with more than two fields is decrypted from its first two
  fields, and the further fields are ignored.
\<close>

theorem C5_field_count:
  "(colon \<notin> set text \<longrightarrow> decrypt env text = Inl TypeError) \<and>
   (colon \<notin> set a \<and> colon \<notin> set b \<longrightarrow>
    decrypt env (a @ [colon] @ b @ [colon] @ rest) = decrypt env (a @ [colon] @ b))"
  by (simp add: decrypt_no_colon decrypt_two_fields decrypt_more_fields)

theorem C5_field_count_witness:
  "colon \<notin> set (js ''not-a-valid-format'') \<and>
   decrypt (Some (js ''0123456789abcdef0123456789abcdef'')) (js ''not-a-valid-format'') =
     Inl TypeError \<and>
   colon \<notin> set (js ''000102030405060708090a0b0c0d0e0f'') \<and>
   colon \<notin> set (js ''a1314678ca91c2309c8fccff169998e6'') \<and>
   decrypt (Some (js ''0123456789abcdef0123456789abcdef''))
     (js ''000102030405060708090a0b0c0d0e0f'' @ [colon] @
      js ''a1314678ca91c2309c8fccff169998e6'' @ [colon] @ js ''00'') =
   decrypt (Some (js ''0123456789abcdef0123456789abcdef''))
     (js ''000102030405060708090a0b0c0d0e0f'' @ [colon] @
      js ''a1314678ca91c2309c8fccff169998e6'')"
proof -
  have n: "colon \<notin> set (js ''not-a-valid-format'')" by (simp add: js_def colon_def)
  have c: "colon \<notin> set (js ''000102030405060708090a0b0c0d0e0f'')"
    "colon \<notin> set (js ''a1314678ca91c2309c8fccff169998e6'')"
    by (simp_all add: js_def colon_def)
  show ?thesis
    using C5_field_count [of "js ''not-a-valid-format''"
        "Some (js ''0123456789abcdef0123456789abcdef'')"
        "js ''000102030405060708090a0b0c0d0e0f''" "js ''a1314678ca91c2309c8fccff169998e6''"
        "js ''00''"] n c
    by blast
qed

text \<open>
  C5 as stated, that more than two fields are a decryption failure, fails on an output
  of \<open>encrypt\<close> followed by a third field \<open>:00\<close>: the first two fields are
  decrypted and the plaintext is returned.
\<close>

theorem C5_third_field_counterexample:
  "fst (encrypt (Some (js ''0123456789abcdef0123456789abcdef'')) of_nat (js ''hello world'')) =
     Inr (js ''000102030405060708090a0b0c0d0e0f:a1314678ca91c2309c8fccff169998e6'') \<and>
   str_split colon (js ''000102030405060708090a0b0c0d0e0f:a1314678ca91c2309c8fccff169998e6:00'') =
     [js ''000102030405060708090a0b0c0d0e0f'', js ''a1314678ca91c2309c8fccff169998e6'',
      js ''00''] \<and>
   decrypt (Some (js ''0123456789abcdef0123456789abcdef''))
     (js ''000102030405060708090a0b0c0d0e0f:a1314678ca91c2309c8fccff169998e6:00'') =
     Inr (js ''hello world'')"
proof -
  let ?K = "Some (js ''0123456789abcdef0123456789abcdef'')"
  have s: "js ''000102030405060708090a0b0c0d0e0f:a1314678ca91c2309c8fccff169998e6:00'' =
      js ''000102030405060708090a0b0c0d0e0f'' @ colon #
      js ''a1314678ca91c2309c8fccff169998e6'' @ colon # js ''00''"
    by (simp add: js_def colon_def)
  have c: "colon \<notin> set (js ''000102030405060708090a0b0c0d0e0f'')"
    "colon \<notin> set (js ''a1314678ca91c2309c8fccff169998e6'')"
    "colon \<notin> set (js ''00'')"
    by (simp_all add: js_def colon_def)
  have e: "hex_decode [] = []" by simp
  have "decrypt ?K (js ''000102030405060708090a0b0c0d0e0f'' @ colon #
      js ''a1314678ca91c2309c8fccff169998e6'' @ colon # js ''00'') = Inr (js ''hello world'')"
    using decrypt_fields_hello [OF e]
    by (simp only: decrypt_more_fields [OF c(1,2)] append_Nil2)
  moreover have "str_split colon (js ''000102030405060708090a0b0c0d0e0f'' @ colon #
      js ''a1314678ca91c2309c8fccff169998e6'' @ colon # js ''00'') =
     [js ''000102030405060708090a0b0c0d0e0f'', js ''a1314678ca91c2309c8fccff169998e6'',
      js ''00'']"
    by (simp only: str_split_append [OF c(1)] str_split_append [OF c(2)] str_split_no_sep [OF c(3)])
  ultimately show ?thesis by (simp only: s encrypt_hello)
qed

subsection \<open>C6: decrypting under another key\<close>

text \<open>
  C6, as the code has it: for every plaintext and 32-byte keys K1 and K2, \<open>decrypt\<close>
  under K2 of a value encrypted under K1 deciphers the ciphertext with K2 and checks
  only the padding of what comes out: it fails, with the bad-decrypt error, when those
  bytes do not end in valid PKCS#7 padding, and otherwise returns them decoded as text.
\<close>

theorem C6_key_mismatch:
  assumes "valid_key env1" "valid_key env2" "fst (encrypt env1 r P) = Inr enc"
  shows "decrypt env2 enc =
           (case pkcs7_unpad (concat (cbc_dec (module_round_keys env2) (drawn_iv r)
                   (blocks (cipher_update_final (module_round_keys env1) (drawn_iv r)
                      (utf8_encode P))))) of
              Inl e \<Rightarrow> Inl e
            | Inr bs \<Rightarrow> Inr (utf8_decode bs)) \<and>
         (decrypt env2 enc = Inl BadDecrypt \<or> (\<exists>t. decrypt env2 enc = Inr t))"
proof -
  let ?ct = "cipher_update_final (module_round_keys env1) (drawn_iv r) (utf8_encode P)"
  let ?out = "concat (cbc_dec (module_round_keys env2) (drawn_iv r) (blocks ?ct))"
  have enc: "enc = hex_encode (drawn_iv r) @ colon # hex_encode ?ct"
    using assms(3) encrypt_valid [OF assms(1), of r P] by simp
  have d: "decrypt env2 enc =
      (case pkcs7_unpad ?out of Inl e \<Rightarrow> Inl e | Inr bs \<Rightarrow> Inr (utf8_decode bs))"
    unfolding enc
    by (simp only: decrypt_two_fields [OF colon_notin_hex_encode colon_notin_hex_encode]
        decrypt_fields_other_key [OF assms(1,2) length_drawn_iv])
  moreover have "decrypt env2 enc = Inl BadDecrypt \<or> (\<exists>t. decrypt env2 enc = Inr t)"
    using pkcs7_unpad_cases [of ?out] unfolding d by auto
  ultimately show ?thesis by simp
qed

theorem C6_key_mismatch_witness:
  "valid_key (Some (js ''0123456789abcdef0123456789abcdef'')) \<and>
   valid_key (Some (js ''0123456789abcdef0123456789abcdaa'')) \<and>
   fst (encrypt (Some (js ''0123456789abcdef0123456789abcdef'')) of_nat (js ''hello world'')) =
     Inr (js ''000102030405060708090a0b0c0d0e0f:a1314678ca91c2309c8fccff169998e6'') \<and>
   decrypt (Some (js ''0123456789abcdef0123456789abcdaa''))
     (js ''000102030405060708090a0b0c0d0e0f:a1314678ca91c2309c8fccff169998e6'') =
     (case pkcs7_unpad (concat (cbc_dec
             (module_round_keys (Some (js ''0123456789abcdef0123456789abcdaa'')))
             (drawn_iv of_nat)
             (blocks (cipher_update_final
                (module_round_keys (Some (js ''0123456789abcdef0123456789abcdef'')))
                (drawn_iv of_nat) (utf8_encode (js ''hello world'')))))) of
        Inl e \<Rightarrow> Inl e
      | Inr bs \<Rightarrow> Inr (utf8_decode bs))"
  using C6_key_mismatch [OF valid_demo_key valid_other_key encrypt_hello]
    valid_demo_key valid_other_key encrypt_hello
  by blast

text \<open>
  C6 as stated, that decrypting under a different key fails, is false for the keys
  \<open>0123456789abcdef0123456789abcdef\<close> and \<open>0123456789abcdef0123456789abcdaa\<close>: the
  bytes recovered under the second key end in 01, a valid padding, and \<open>decrypt\<close>
  returns the remaining 15 bytes decoded as text.
\<close>

theorem C6_wrong_key_accepted_counterexample:
  "valid_key (Some (js ''0123456789abcdef0123456789abcdef'')) \<and>
   valid_key (Some (js ''0123456789abcdef0123456789abcdaa'')) \<and>
   key_buffer (Some (js ''0123456789abcdef0123456789abcdef'')) \<noteq>
     key_buffer (Some (js ''0123456789abcdef0123456789abcdaa'')) \<and>
   fst (encrypt (Some (js ''0123456789abcdef0123456789abcdef'')) of_nat (js ''hello world'')) =
     Inr (js ''000102030405060708090a0b0c0d0e0f:a1314678ca91c2309c8fccff169998e6'') \<and>
   decrypt (Some (js ''0123456789abcdef0123456789abcdaa''))
     (js ''000102030405060708090a0b0c0d0e0f:a1314678ca91c2309c8fccff169998e6'') =
     Inr [0xB8B5, 0xFFFD, 0xFFFD, 0x0A, 0xFFFD, 0xFFFD, 0x20, 0xFFFD, 0x16, 0x59, 0xFFFD, 0x6F,
          0xFFFD]"
proof -
  have "key_buffer (Some (js ''0123456789abcdef0123456789abcdef'')) \<noteq>
     key_buffer (Some (js ''0123456789abcdef0123456789abcdaa''))"
    by (simp add: key_buffer_def ENCRYPTION_KEY_def js_def utf8_encode_def)
  then show ?thesis
    using valid_demo_key valid_other_key encrypt_hello decrypt_hello_wrong_key by blast
qed

subsection \<open>C7: the output format\<close>



subsection \<open>C8: distinct IVs give distinct outputs\<close>

text \<open>
  C8: for every plaintext and key, two calls of \<open>encrypt\<close> on the same plaintext that
  draw distinct IVs and return outputs return different outputs.
\<close>

theorem C8_distinct_ivs_distinct_outputs:
  assumes "fst (encrypt env r1 P) = Inr o1" "fst (encrypt env r2 P) = Inr o2"
    and "drawn_iv r1 \<noteq> drawn_iv r2"
  shows "o1 \<noteq> o2"
proof
  assume eq: "o1 = o2"
  have v: "valid_key env"
    using assms(1) encrypt_invalid_key [of env r1 P] by (cases "valid_key env") simp_all
  have "hex_encode (drawn_iv r1) @ colon # hex_encode
          (cipher_update_final (module_round_keys env) (drawn_iv r1) (utf8_encode P)) =
        hex_encode (drawn_iv r2) @ colon # hex_encode
          (cipher_update_final (module_round_keys env) (drawn_iv r2) (utf8_encode P))"
    using assms(1,2) eq encrypt_valid [OF v, of r1 P] encrypt_valid [OF v, of r2 P] by simp
  then have "hex_encode (drawn_iv r1) = hex_encode (drawn_iv r2)"
    by (simp add: length_hex_encode length_drawn_iv)
  then have "drawn_iv r1 = drawn_iv r2" by (rule hex_encode_inject)
  with assms(3) show False by simp
qed

theorem C8_distinct_ivs_distinct_outputs_witness:
  "drawn_iv of_nat \<noteq>
     drawn_iv (snd (encrypt (Some (js ''0123456789abcdef0123456789abcdef'')) of_nat
                      (js ''hello world''))) \<and>
   (\<exists>o1 o2.
      fst (encrypt (Some (js ''0123456789abcdef0123456789abcdef'')) of_nat (js ''hello world'')) =
        Inr o1 \<and>
      fst (encrypt (Some (js ''0123456789abcdef0123456789abcdef''))
             (snd (encrypt (Some (js ''0123456789abcdef0123456789abcdef'')) of_nat
                     (js ''hello world'')))
             (js ''hello world'')) = Inr o2 \<and>
      o1 \<noteq> o2)"
proof -
  let ?K = "Some (js ''0123456789abcdef0123456789abcdef'')"
  let ?r2 = "snd (encrypt ?K of_nat (js ''hello world''))"
  have d: "drawn_iv of_nat \<noteq> drawn_iv ?r2"
    by (simp add: drawn_iv_def encrypt_def randomBytes_def upt_rec split: prod.splits)
  obtain o1 where o1: "fst (encrypt ?K of_nat (js ''hello world'')) = Inr o1"
    using encrypt_valid [OF valid_demo_key] by blast
  obtain o2 where o2: "fst (encrypt ?K ?r2 (js ''hello world'')) = Inr o2"
    using encrypt_valid [OF valid_demo_key] by blast
  have "o1 \<noteq> o2" using o1 o2 d by (rule C8_distinct_ivs_distinct_outputs)
  with d o1 o2 show ?thesis by blast
qed

subsection \<open>C9: hexadecimal digits of either case\<close>

text \<open>
  C9: for every encoded value \<open>ivHex:ciphertextHex\<close> that \<open>encrypt\<close> returns for a
  plaintext \<open>P\<close>, \<open>decrypt\<close> returns the same text, the decoding of the UTF-8 bytes of
  \<open>P\<close>, for the value itself and for the value with the IV field, the ciphertext field,
  or both in uppercase; for \<open>P\<close> without unpaired surrogates that text is \<open>P\<close>.
\<close>

theorem C9_hex_case_insensitive:
  assumes "fst (encrypt env r P) = Inr (ivh @ [colon] @ cth)"
  shows "decrypt env (ivh @ [colon] @ cth) = Inr (utf8_decode (utf8_encode P)) \<and>
         decrypt env (toUpperCase ivh @ [colon] @ cth) = Inr (utf8_decode (utf8_encode P)) \<and>
         decrypt env (ivh @ [colon] @ toUpperCase cth) = Inr (utf8_decode (utf8_encode P)) \<and>
         decrypt env (toUpperCase ivh @ [colon] @ toUpperCase cth) =
           Inr (utf8_decode (utf8_encode P)) \<and>
         (well_formed P \<longrightarrow> utf8_decode (utf8_encode P) = P)"
proof -
  let ?iv = "drawn_iv r"
  let ?ct = "cipher_update_final (module_round_keys env) ?iv (utf8_encode P)"
  have v: "valid_key env" and i: "ivh = hex_encode ?iv" and c: "cth = hex_encode ?ct"
    using assms by (rule encrypt_fields)+
  have n: "colon \<notin> set ivh" "colon \<notin> set cth"
    unfolding i c by (rule colon_notin_hex_encode)+
  have f: "decrypt_fields env ivh cth = Inr (utf8_decode (utf8_encode P))"
    unfolding i c using v length_drawn_iv by (rule decrypt_fields_encrypted)
  have w: "well_formed P \<longrightarrow> utf8_decode (utf8_encode P) = P"
    by (rule impI) (rule utf8_decode_encode)
  note d = decrypt_upper_fields [OF n, of env, unfolded f]
  from d(4) d(1) d(2) d(3) w show ?thesis by (intro conjI)
qed

theorem C9_hex_case_insensitive_witness:
  "fst (encrypt (Some (js ''0123456789abcdef0123456789abcdef'')) of_nat (js ''hello world'')) =
     Inr (js ''000102030405060708090a0b0c0d0e0f'' @ [colon] @
          js ''a1314678ca91c2309c8fccff169998e6'') \<and>
   well_formed (js ''hello world'') \<and>
   toUpperCase (js ''000102030405060708090a0b0c0d0e0f'') =
     js ''000102030405060708090A0B0C0D0E0F'' \<and>
   toUpperCase (js ''a1314678ca91c2309c8fccff169998e6'') =
     js ''A1314678CA91C2309C8FCCFF169998E6'' \<and>
   decrypt (Some (js ''0123456789abcdef0123456789abcdef''))
     (js ''000102030405060708090a0b0c0d0e0f'' @ [colon] @
      js ''a1314678ca91c2309c8fccff169998e6'') = Inr (js ''hello world'') \<and>
   decrypt (Some (js ''0123456789abcdef0123456789abcdef''))
     (js ''000102030405060708090A0B0C0D0E0F'' @ [colon] @
      js ''a1314678ca91c2309c8fccff169998e6'') = Inr (js ''hello world'') \<and>
   decrypt (Some (js ''0123456789abcdef0123456789abcdef''))
     (js ''000102030405060708090a0b0c0d0e0f'' @ [colon] @
      js ''A1314678CA91C2309C8FCCFF169998E6'') = Inr (js ''hello world'') \<and>
   decrypt (Some (js ''0123456789abcdef0123456789abcdef''))
     (js ''000102030405060708090A0B0C0D0E0F'' @ [colon] @
      js ''A1314678CA91C2309C8FCCFF169998E6'') = Inr (js ''hello world'')"
proof -
  let ?K = "Some (js ''0123456789abcdef0123456789abcdef'')"
  let ?ivh = "js ''000102030405060708090a0b0c0d0e0f''"
  let ?cth = "js ''a1314678ca91c2309c8fccff169998e6''"
  have "js ''000102030405060708090a0b0c0d0e0f:a1314678ca91c2309c8fccff169998e6'' =
      ?ivh @ [colon] @ ?cth"
    by (simp add: js_def colon_def)
  then have e: "fst (encrypt ?K of_nat (js ''hello world'')) = Inr (?ivh @ [colon] @ ?cth)"
    using encrypt_hello by (simp only:)
  have u: "toUpperCase ?ivh = js ''000102030405060708090A0B0C0D0E0F''"
    "toUpperCase ?cth = js ''A1314678CA91C2309C8FCCFF169998E6''"
    by (simp_all add: toUpperCase_def upper_unit_def js_def)
  note t = C9_hex_case_insensitive [OF e]
  from t well_formed_hello
  have w: "utf8_decode (utf8_encode (js ''hello world'')) = js ''hello world''" by blast
  from t have d: "decrypt ?K (?ivh @ [colon] @ ?cth) = Inr (js ''hello world'')"
    "decrypt ?K (toUpperCase ?ivh @ [colon] @ ?cth) = Inr (js ''hello world'')"
    "decrypt ?K (?ivh @ [colon] @ toUpperCase ?cth) = Inr (js ''hello world'')"
    "decrypt ?K (toUpperCase ?ivh @ [colon] @ toUpperCase ?cth) = Inr (js ''hello world'')"
    unfolding w by blast+
  from e well_formed_hello u d [unfolded u] show ?thesis by (intro conjI)
qed

subsection \<open>C10: the fallback key is 30 bytes long\<close>

text \<open>
  C10, as the code has it: with the environment value absent, the key buffer has 30
  bytes, not 32; every call of \<open>encrypt\<close> throws the invalid-key-length error, and
  every call of \<open>decrypt\<close> throws too: the TypeError when the text has no delimiter,
  else the invalid-IV error when the first field does not decode to 16 bytes, else the
  invalid-key-length error. Nothing is ever encrypted or decrypted.
\<close>

theorem C10_fallback_key_rejected:
  "length (key_buffer None) = 30 \<and>
   fst (encrypt None r P) = Inl InvalidKeyLength \<and>
   decrypt None text =
     (if colon \<notin> set text then Inl TypeError
      else if length (hex_decode (hd (str_split colon text))) \<noteq> 16 then Inl InvalidIV
      else Inl InvalidKeyLength)"
proof -
  have "decrypt None text =
     (if colon \<notin> set text then Inl TypeError
      else if length (hex_decode (hd (str_split colon text))) \<noteq> 16 then Inl InvalidIV
      else Inl InvalidKeyLength)"
  proof (cases "colon \<in> set text")
    case False
    then show ?thesis by (simp add: decrypt_no_colon)
  next
    case True
    then obtain a b where ab: "text = a @ colon # b" "colon \<notin> set a"
      by (meson split_list_first)
    obtain p ps where ps: "str_split colon b = p # ps"
      using str_split_nonempty [of colon b] by (cases "str_split colon b") auto
    show ?thesis
      using True ab ps fallback_key_length
      by (simp add: decrypt_def str_split_append createDecipheriv_def createCipheriv_def Let_def)
  qed
  then show ?thesis
    using encrypt_invalid_key [OF fallback_key_invalid] fallback_key_length by simp
qed

theorem C10_fallback_key_rejected_witness:
  "length (key_buffer None) = 30 \<and>
   fst (encrypt None of_nat (js ''hello world'')) = Inl InvalidKeyLength \<and>
   decrypt None (js ''000102030405060708090a0b0c0d0e0f:a1314678ca91c2309c8fccff169998e6'') =
     Inl InvalidKeyLength \<and>
   decrypt None
     ([0x130, 0x130, 0x130, 0x131, 0x130, 0x132, 0x130, 0x133, 0x130, 0x134, 0x130, 0x135,
       0x130, 0x136, 0x130, 0x137, 0x130, 0x138, 0x130, 0x139, 0x130, 0x161, 0x130, 0x162,
       0x130, 0x163, 0x130, 0x164, 0x130, 0x165, 0x130, 0x166] @
      js '':a1314678ca91c2309c8fccff169998e6'') = Inl InvalidKeyLength \<and>
   decrypt None (js ''0001:a1314678ca91c2309c8fccff169998e6'') = Inl InvalidIV"
proof -
  let ?wide = "[0x130, 0x130, 0x130, 0x131, 0x130, 0x132, 0x130, 0x133, 0x130, 0x134, 0x130,
      0x135, 0x130, 0x136, 0x130, 0x137, 0x130, 0x138, 0x130, 0x139, 0x130, 0x161, 0x130,
      0x162, 0x130, 0x163, 0x130, 0x164, 0x130, 0x165, 0x130, 0x166] :: jsstring"
  have c: "colon \<in> set (js ''000102030405060708090a0b0c0d0e0f:a1314678ca91c2309c8fccff169998e6'')"
    "colon \<in> set (?wide @ js '':a1314678ca91c2309c8fccff169998e6'')"
    "colon \<in> set (js ''0001:a1314678ca91c2309c8fccff169998e6'')"
    by (simp_all add: js_def colon_def)
  have l: "length (hex_decode (hd (str_split colon
      (js ''000102030405060708090a0b0c0d0e0f:a1314678ca91c2309c8fccff169998e6'')))) = 16"
    "length (hex_decode (hd (str_split colon
      (?wide @ js '':a1314678ca91c2309c8fccff169998e6'')))) = 16"
    "length (hex_decode (hd (str_split colon
      (js ''0001:a1314678ca91c2309c8fccff169998e6'')))) = 2"
    by (simp_all add: js_def colon_def unhex_def)
  have a: "length (key_buffer None) = 30 \<and>
      fst (encrypt None of_nat (js ''hello world'')) = Inl InvalidKeyLength \<and>
      decrypt None (js ''000102030405060708090a0b0c0d0e0f:a1314678ca91c2309c8fccff169998e6'') =
        Inl InvalidKeyLength"
    using C10_fallback_key_rejected [of of_nat "js ''hello world''"
        "js ''000102030405060708090a0b0c0d0e0f:a1314678ca91c2309c8fccff169998e6''"] c(1) l(1)
    by simp
  have b: "decrypt None (?wide @ js '':a1314678ca91c2309c8fccff169998e6'') =
      Inl InvalidKeyLength"
    using C10_fallback_key_rejected [of of_nat "js ''hello world''"
        "?wide @ js '':a1314678ca91c2309c8fccff169998e6''"] c(2) l(2)
    by (simp only: if_False if_True simp_thms)
  have d: "decrypt None (js ''0001:a1314678ca91c2309c8fccff169998e6'') = Inl InvalidIV"
    using C10_fallback_key_rejected [of of_nat "js ''hello world''"
        "js ''0001:a1314678ca91c2309c8fccff169998e6''"] c(3) l(3)
    by simp
  from a b d show ?thesis by (intro conjI) (elim conjE, assumption)+
qed

text \<open>
  C10 as stated, that every call of \<open>decrypt\<close> throws the invalid-key-length error,
  fails on a text without a delimiter: \<open>Buffer.from(undefined, 'hex')\<close> throws
  before the cipher is built.
\<close>

theorem C10_decrypt_error_counterexample:
  "decrypt None (js ''not-a-valid-format'') = Inl TypeError \<and>
   decrypt None (js ''not-a-valid-format'') \<noteq> Inl InvalidKeyLength"
  by (simp add: decrypt_def js_def colon_def)

end
